theory Spec2Isabelle
  imports Complex_Main "HOL-Library.Multiset" "HOL-Library.Word"
begin

section \<open>Data model\<close>

text \<open>
  The object a track holds as its \<^verbatim>\<open>file\<close>: its name, its MIME type and its bytes
  (\<^verbatim>\<open>size\<close> is their number), and \<open>file_isBlob\<close>, the value of
  \<^verbatim>\<open>file instanceof Blob\<close>. It is true of every \<^verbatim>\<open>File\<close> the page creates or is handed by
  a file input; \<^verbatim>\<open>savePlaylist\<close> tests it.
\<close>

type_synonym byte = "8 word"

record js_file =
  file_name :: string
  file_type :: string
  file_bytes :: "byte list"
  file_isBlob :: bool

definition blob_size :: "js_file \<Rightarrow> nat" where
  "blob_size f = length (file_bytes f)"

text \<open>
  An in-memory track, as \<^verbatim>\<open>loadFiles\<close> (\<^verbatim>\<open>{name, file, url, index}\<close>) and
  \<^verbatim>\<open>loadPlaylist\<close> (the same with \<^verbatim>\<open>originalName\<close>) build it.
\<close>

record track =
  track_name :: string
  track_originalName :: "string option"
  track_file :: js_file
  track_url :: string
  track_index :: nat

text \<open>
  The playlist metadata object of \<^verbatim>\<open>savePlaylist\<close>. The object has no \<^verbatim>\<open>id\<close> until the
  store assigns one (key path \<^verbatim>\<open>id\<close>, auto-increment).
\<close>

record playlist =
  pl_name :: string
  pl_trackCount :: nat
  pl_createdAt :: string
  pl_totalSize :: nat
  pl_id :: "nat option"

text \<open>The \<^verbatim>\<open>state\<close> object of \<^verbatim>\<open>src/app.js\<close>.\<close>

record player_state =
  tracks :: "track list"
  currentIndex :: int
  isPlaying :: bool
  shuffleMode :: bool
  shuffledOrder :: "int list"
  shuffledIndex :: int
  volume :: real
  currentPlaylistId :: "nat option"
  savedPlaylists :: "playlist list"

section \<open>JavaScript primitives used by the order engine\<close>

text \<open>
  The only exception the order engine can raise: reading a property of \<^verbatim>\<open>undefined\<close>.
\<close>

datatype js_error = TypeError

text \<open>
  The remainder operator \<^verbatim>\<open>a % n\<close> on integers, for \<open>n \<noteq> 0\<close>: the result has the sign of
  the dividend. (\<^verbatim>\<open>a % 0\<close> is \<^verbatim>\<open>NaN\<close>; the callers below test for it.)
\<close>

definition js_rem :: "int \<Rightarrow> int \<Rightarrow> int" where
  "js_rem a n = sgn a * (\<bar>a\<bar> mod \<bar>n\<bar>)"

text \<open>\<^verbatim>\<open>xs[i]\<close> for an integer \<open>i\<close>: \<^verbatim>\<open>undefined\<close> (\<open>None\<close>) outside the array.\<close>

definition js_nth :: "'a list \<Rightarrow> int \<Rightarrow> 'a option" where
  "js_nth xs i = (if 0 \<le> i \<and> i < int (length xs) then Some (xs ! nat i) else None)"

text \<open>\<^verbatim>\<open>xs.indexOf(v)\<close>: the first position of \<open>v\<close>, or \<open>-1\<close>.\<close>

fun indexOf :: "'a list \<Rightarrow> 'a \<Rightarrow> int" where
  "indexOf [] v = -1"
| "indexOf (x # xs) v =
     (if x = v then 0 else (let r = indexOf xs v in if r < 0 then -1 else r + 1))"

text \<open>
  A value returned by \<^verbatim>\<open>Math.random()\<close>: a number in \<open>[0, 1)\<close>.
\<close>

typedef unit_draw = "{r :: real. 0 \<le> r \<and> r < 1}"
  by (rule exI [of _ 0]) simp

setup_lifting type_definition_unit_draw

lift_definition draw_zero :: unit_draw is "0 :: real"
  by simp

text \<open>
  \<^verbatim>\<open>Math.floor(Math.random() * n)\<close>, with the product taken in the real numbers. The
  double-precision product of a draw below \<open>1\<close> and an array length \<open>n\<close> also rounds to
  a number below \<open>n\<close>, so the expression yields an index in \<open>[0, n)\<close>, and every such
  index is \<open>random_index r n\<close> for some draw \<open>r\<close>.
\<close>

definition random_index :: "unit_draw \<Rightarrow> nat \<Rightarrow> nat" where
  "random_index r n = nat \<lfloor>Rep_unit_draw r * real n\<rfloor>"

text \<open>
  The destructuring swap \<^verbatim>\<open>[a[i], a[j]] = [a[j], a[i]]\<close>: both reads first, then the write
  to \<open>i\<close>, then the write to \<open>j\<close>. The loop below calls it with \<open>j \<le> i < length a\<close> only.
\<close>

definition swap :: "nat \<Rightarrow> nat \<Rightarrow> 'a list \<Rightarrow> 'a list" where
  "swap i j xs = (xs[i := xs ! j])[j := xs ! i]"

section \<open>The order engine (\<^verbatim>\<open>src/app.js\<close>)\<close>

text \<open>
  The Fisher-Yates loop of \<^verbatim>\<open>generateShuffledOrder\<close>,
  \<^verbatim>\<open>for (let i = length - 1; i > 0; i--)\<close>. \<open>rnd k\<close> is the value of the \<open>k\<close>-th call of
  \<^verbatim>\<open>Math.random()\<close>; the loop draws once per iteration. For an empty array the
  loop starts at \<open>-1\<close> and does not run, as it does not from \<open>0\<close>.
\<close>

fun shuffle_loop :: "(nat \<Rightarrow> unit_draw) \<Rightarrow> nat \<Rightarrow> nat \<Rightarrow> int list \<Rightarrow> int list" where
  "shuffle_loop rnd k 0 xs = xs"
| "shuffle_loop rnd k (Suc i) xs =
     (let j = random_index (rnd k) (Suc i + 1)
      in shuffle_loop rnd (Suc k) i (swap (Suc i) j xs))"

definition generateShuffledOrder :: "(nat \<Rightarrow> unit_draw) \<Rightarrow> player_state \<Rightarrow> player_state" where
  "generateShuffledOrder rnd s =
     (let order0 = map int [0..<length (tracks s)];
          order1 = shuffle_loop rnd 0 (length order0 - 1) order0
      in s\<lparr>shuffledOrder := order1, shuffledIndex := 0\<rparr>)"

text \<open>
  \<^verbatim>\<open>loadTrack(index)\<close>. An \<^verbatim>\<open>undefined\<close> index (\<open>None\<close>) passes both comparisons of the
  range guard, \<^verbatim>\<open>state.tracks[undefined]\<close> is \<^verbatim>\<open>undefined\<close>, and reading \<^verbatim>\<open>track.url\<close>
  throws. The writes to the audio element and to the page are not part of \<^verbatim>\<open>state\<close>.
\<close>

definition loadTrack :: "int option \<Rightarrow> player_state \<Rightarrow> js_error + player_state" where
  "loadTrack index s =
     (case index of
        None \<Rightarrow> Inl TypeError
      | Some i \<Rightarrow>
          if i < 0 \<or> i \<ge> int (length (tracks s)) then Inr s
          else Inr (s\<lparr>currentIndex := i\<rparr>))"

text \<open>
  \<^verbatim>\<open>playTrack(index)\<close>: \<^verbatim>\<open>loadTrack\<close>, then the cursor follows the index in shuffle mode.
  The final \<^verbatim>\<open>play()\<close> starts the audio element; \<^verbatim>\<open>isPlaying\<close> is set later, by the
  callback of the promise it returns.
\<close>

definition playTrack :: "int option \<Rightarrow> player_state \<Rightarrow> js_error + player_state" where
  "playTrack index s =
     (case loadTrack index s of
        Inl e \<Rightarrow> Inl e
      | Inr s1 \<Rightarrow>
          Inr (if shuffleMode s1
               then s1\<lparr>shuffledIndex := indexOf (map Some (shuffledOrder s1)) index\<rparr>
               else s1))"

text \<open>
  \<^verbatim>\<open>playNext()\<close>. In shuffle mode with an empty \<^verbatim>\<open>shuffledOrder\<close> the new cursor is
  \<^verbatim>\<open>NaN\<close>, the entry read is \<^verbatim>\<open>undefined\<close> and \<^verbatim>\<open>loadTrack\<close> throws.
\<close>

definition playNext :: "player_state \<Rightarrow> js_error + player_state" where
  "playNext s =
     (if length (tracks s) = 0 then Inr s
      else if shuffleMode s then
        (if length (shuffledOrder s) = 0 then Inl TypeError
         else
           (let s1 = s\<lparr>shuffledIndex :=
                        js_rem (shuffledIndex s + 1) (int (length (shuffledOrder s)))\<rparr>;
                nextIndex = js_nth (shuffledOrder s1) (shuffledIndex s1)
            in playTrack nextIndex s1))
      else
        (let nextIndex = js_rem (currentIndex s + 1) (int (length (tracks s)))
         in playTrack (Some nextIndex) s))"

text \<open>
  \<^verbatim>\<open>playPrevious()\<close>. \<open>currentTime\<close> is the value of \<^verbatim>\<open>elements.audio.currentTime\<close>
  when the function runs: more than three seconds into the track, the track is restarted
  (a write to the audio element) and the function returns.
\<close>

definition playPrevious :: "real \<Rightarrow> player_state \<Rightarrow> js_error + player_state" where
  "playPrevious currentTime s =
     (if length (tracks s) = 0 then Inr s
      else if currentTime > 3 then Inr s
      else if shuffleMode s then
        (if length (shuffledOrder s) = 0 then Inl TypeError
         else
           (let s1 = s\<lparr>shuffledIndex :=
                        js_rem (shuffledIndex s - 1 + int (length (shuffledOrder s)))
                          (int (length (shuffledOrder s)))\<rparr>;
                prevIndex = js_nth (shuffledOrder s1) (shuffledIndex s1)
            in playTrack prevIndex s1))
      else
        (let prevIndex =
               js_rem (currentIndex s - 1 + int (length (tracks s))) (int (length (tracks s)))
         in playTrack (Some prevIndex) s))"

text \<open>
  \<^verbatim>\<open>toggleShuffle()\<close>. The button class and the debounced save of the preferences (a
  timer) are not part of \<^verbatim>\<open>state\<close>.
\<close>

definition toggleShuffle :: "(nat \<Rightarrow> unit_draw) \<Rightarrow> player_state \<Rightarrow> player_state" where
  "toggleShuffle rnd s =
     (let s1 = s\<lparr>shuffleMode := \<not> shuffleMode s\<rparr>
      in if shuffleMode s1 \<and> length (tracks s1) > 0 then
           (let s2 = generateShuffledOrder rnd s1
            in s2\<lparr>shuffledIndex := indexOf (shuffledOrder s2) (currentIndex s2)\<rparr>)
         else s1)"

text \<open>Repeated calls, stopping at the first exception.\<close>

fun playNext_times :: "nat \<Rightarrow> player_state \<Rightarrow> js_error + player_state" where
  "playNext_times 0 s = Inr s"
| "playNext_times (Suc k) s =
     (case playNext s of Inl e \<Rightarrow> Inl e | Inr s1 \<Rightarrow> playNext_times k s1)"

text \<open>One call of \<^verbatim>\<open>playPrevious\<close> per reading of the audio position.\<close>

fun playPrevious_times :: "real list \<Rightarrow> player_state \<Rightarrow> js_error + player_state" where
  "playPrevious_times [] s = Inr s"
| "playPrevious_times (ct # cts) s =
     (case playPrevious ct s of Inl e \<Rightarrow> Inl e | Inr s1 \<Rightarrow> playPrevious_times cts s1)"

section \<open>The persistent store (\<^verbatim>\<open>src/storage.js\<close>)\<close>

subsection \<open>Records and object stores\<close>

text \<open>
  The \<^verbatim>\<open>trackData\<close> object of \<^verbatim>\<open>savePlaylist\<close>. As for a playlist, the store assigns the
  \<^verbatim>\<open>id\<close> (key path \<^verbatim>\<open>id\<close>, auto-increment).
\<close>

record track_record =
  rec_playlistId :: nat
  rec_name :: string
  rec_originalName :: string
  rec_order :: nat
  rec_audioBlob :: js_file
  rec_size :: nat
  rec_type :: string
  rec_id :: "nat option"

text \<open>A record of the preferences store (key path \<^verbatim>\<open>key\<close>).\<close>

record 'v preference =
  pref_key :: string
  pref_value :: 'v
  pref_updatedAt :: string

text \<open>
  The database \<^verbatim>\<open>wmd-player-db\<close>: the three object stores that \<^verbatim>\<open>onupgradeneeded\<close>
  creates, each the list of its records (the key of a record is the field its key path
  names), and the key generators of the two auto-increment stores.
\<close>

record 'v database =
  db_playlists :: "playlist list"
  db_playlistKey :: nat
  db_tracks :: "track_record list"
  db_trackKey :: nat
  db_preferences :: "'v preference list"

text \<open>The database after \<^verbatim>\<open>initDB\<close> has created it: a key generator starts at \<open>1\<close>.\<close>

definition empty_database :: "'v database" where
  "empty_database =
     \<lparr>db_playlists = [], db_playlistKey = 1, db_tracks = [], db_trackKey = 1,
      db_preferences = []\<rparr>"

text \<open>
  What becomes of a promise of the storage module: it is resolved, rejected, or never
  settled (\<open>Pending\<close>). \<open>RequestError\<close> stands for the \<^verbatim>\<open>error\<close> of a failed request or
  transaction (a quota error, for one); \<open>RecordNotFound\<close> is
  \<^verbatim>\<open>new Error('Playlist not found')\<close>.
\<close>

datatype storage_error = RecordNotFound | RequestError

datatype 'a outcome = Resolved 'a | Rejected storage_error | Pending

subsection \<open>Requests and transactions\<close>

text \<open>
  A write request is a function on the database. The requests a transaction places are
  run in the order placed; \<open>fails k\<close> tells whether the \<open>k\<close>-th request of the transaction
  fails. No handler of \<^verbatim>\<open>storage.js\<close> calls \<^verbatim>\<open>preventDefault\<close>, so the first failing
  request aborts the transaction (\<open>None\<close>), and the caller keeps the database as it was
  before the transaction, key generators included.
\<close>

type_synonym 'v request = "'v database \<Rightarrow> 'v database"

fun run_requests :: "(nat \<Rightarrow> bool) \<Rightarrow> nat \<Rightarrow> 'v request list \<Rightarrow> 'v database \<Rightarrow> 'v database option" where
  "run_requests fails k [] db = Some db"
| "run_requests fails k (r # rs) db =
     (if fails k then None else run_requests fails (Suc k) rs (r db))"

text \<open>\<^verbatim>\<open>playlistStore.add(playlist)\<close>: the key generator gives the key.\<close>

definition playlistStore_add :: "playlist \<Rightarrow> 'v request" where
  "playlistStore_add p db =
     db\<lparr>db_playlists := db_playlists db @ [p\<lparr>pl_id := Some (db_playlistKey db)\<rparr>],
        db_playlistKey := db_playlistKey db + 1\<rparr>"

text \<open>
  \<^verbatim>\<open>playlistStore.put(playlist)\<close> for a playlist that carries its \<^verbatim>\<open>id\<close>: the record with
  that key is replaced, or the playlist is added.
\<close>

fun put_playlist :: "playlist \<Rightarrow> playlist list \<Rightarrow> playlist list" where
  "put_playlist p [] = [p]"
| "put_playlist p (q # qs) = (if pl_id q = pl_id p then p # qs else q # put_playlist p qs)"

definition playlistStore_put :: "playlist \<Rightarrow> 'v request" where
  "playlistStore_put p db = db\<lparr>db_playlists := put_playlist p (db_playlists db)\<rparr>"

text \<open>\<^verbatim>\<open>playlistStore.get(playlistId)\<close>.\<close>

definition playlistStore_get :: "nat \<Rightarrow> 'v database \<Rightarrow> playlist option" where
  "playlistStore_get playlistId db = find (\<lambda>p. pl_id p = Some playlistId) (db_playlists db)"

text \<open>\<^verbatim>\<open>playlistStore.delete(playlistId)\<close>.\<close>

definition playlistStore_delete :: "nat \<Rightarrow> 'v request" where
  "playlistStore_delete playlistId db =
     db\<lparr>db_playlists := filter (\<lambda>p. pl_id p \<noteq> Some playlistId) (db_playlists db)\<rparr>"

text \<open>\<^verbatim>\<open>trackStore.add(trackData)\<close>.\<close>

definition trackStore_add :: "track_record \<Rightarrow> 'v request" where
  "trackStore_add r db =
     db\<lparr>db_tracks := db_tracks db @ [r\<lparr>rec_id := Some (db_trackKey db)\<rparr>],
        db_trackKey := db_trackKey db + 1\<rparr>"

text \<open>
  The records of the index \<^verbatim>\<open>playlistId\<close> with the given key:
  \<^verbatim>\<open>trackStore.index('playlistId').getAll(playlistId)\<close>, and the records a cursor opened
  with \<^verbatim>\<open>IDBKeyRange.only(playlistId)\<close> visits.
\<close>

definition index_getAll :: "nat \<Rightarrow> 'v database \<Rightarrow> track_record list" where
  "index_getAll playlistId db = filter (\<lambda>r. rec_playlistId r = playlistId) (db_tracks db)"

text \<open>\<^verbatim>\<open>cursor.delete()\<close> on the record \<open>r\<close>: the record with the cursor's primary key goes.\<close>

definition cursor_delete :: "track_record \<Rightarrow> 'v request" where
  "cursor_delete r db = db\<lparr>db_tracks := filter (\<lambda>x. rec_id x \<noteq> rec_id r) (db_tracks db)\<rparr>"

text \<open>
  \<^verbatim>\<open>index.openCursor(...)\<close> and \<^verbatim>\<open>cursor.continue()\<close> are requests that write nothing.
\<close>

definition cursor_move :: "'v request" where
  "cursor_move db = db"

text \<open>\<^verbatim>\<open>store.put(record)\<close> on the preferences store.\<close>

fun put_preference :: "'v preference \<Rightarrow> 'v preference list \<Rightarrow> 'v preference list" where
  "put_preference p [] = [p]"
| "put_preference p (q # qs) =
     (if pref_key q = pref_key p then p # qs else q # put_preference p qs)"

definition preferences_put :: "'v preference \<Rightarrow> 'v request" where
  "preferences_put p db = db\<lparr>db_preferences := put_preference p (db_preferences db)\<rparr>"

subsection \<open>Playlist operations\<close>

text \<open>The \<^verbatim>\<open>trackData\<close> object built for the track at position \<open>i\<close>.\<close>

definition trackData :: "nat \<Rightarrow> nat \<Rightarrow> track \<Rightarrow> track_record" where
  "trackData playlistId i t =
     \<lparr>rec_playlistId = playlistId,
      rec_name = track_name t,
      rec_originalName = file_name (track_file t),
      rec_order = i,
      rec_audioBlob = track_file t,
      rec_size = blob_size (track_file t),
      rec_type = (if file_type (track_file t) = [] then ''audio/mpeg'' else file_type (track_file t)),
      rec_id = None\<rparr>"

text \<open>
  The loop of the success handler of \<^verbatim>\<open>playlistRequest\<close> over \<^verbatim>\<open>tracks\<close>, with its counter
  \<open>i\<close>, its accumulator \<^verbatim>\<open>totalSize\<close> and the requests placed so far. The handler is an
  \<^verbatim>\<open>async\<close> function and the loop body starts with
  \<^verbatim>\<open>track.file instanceof Blob ? track.file : await fileToBlob(track.file)\<close>.
  For a \<^verbatim>\<open>Blob\<close> nothing is awaited and the loop goes on within the handler. Otherwise the
  handler is suspended at the \<^verbatim>\<open>await\<close> and returns to the event loop. Its continuation
  places no request: either \<^verbatim>\<open>readAsArrayBuffer\<close> has thrown on an object that is no
  \<^verbatim>\<open>Blob\<close> and the continuation re-throws, or the blob is read in a later task, when the
  transaction is no longer active and \<^verbatim>\<open>trackStore.add\<close> throws. Either exception only
  rejects the promise of the \<^verbatim>\<open>async\<close> function: it aborts nothing, and neither the
  \<^verbatim>\<open>put\<close> nor \<^verbatim>\<open>resolve\<close> is reached. The first component of the result tells whether the
  loop ran to its end.
\<close>

fun track_loop ::
  "nat \<Rightarrow> nat \<Rightarrow> track list \<Rightarrow> nat \<Rightarrow> 'v request list \<Rightarrow> bool \<times> nat \<times> 'v request list" where
  "track_loop playlistId i [] totalSize queue = (True, totalSize, queue)"
| "track_loop playlistId i (t # rest) totalSize queue =
     (if file_isBlob (track_file t) then
        (let audioBlob = track_file t
         in track_loop playlistId (Suc i) rest (totalSize + blob_size audioBlob)
              (queue @ [trackStore_add (trackData playlistId i t)]))
      else (False, totalSize, queue))"

text \<open>
  \<^verbatim>\<open>savePlaylist(name, tracks)\<close>; \<open>now\<close> is \<^verbatim>\<open>new Date().toISOString()\<close>. Request \<open>0\<close> is
  the \<^verbatim>\<open>add\<close> of the metadata; when it fails the promise is rejected. Its success handler
  places one \<^verbatim>\<open>add\<close> per track and, when the loop ran to its end, the \<^verbatim>\<open>put\<close> of the
  patched metadata, and then resolves the promise with the new key: the promise is
  settled before the requests placed by the handler run, so the later \<^verbatim>\<open>reject\<close> of
  \<^verbatim>\<open>transaction.onerror\<close> has no effect on it. When the handler was suspended, the
  requests placed until then run and the transaction commits them; the promise is
  rejected if one of them fails and is never settled otherwise.
\<close>

definition savePlaylist ::
  "(nat \<Rightarrow> bool) \<Rightarrow> string \<Rightarrow> string \<Rightarrow> track list \<Rightarrow> 'v database \<Rightarrow> nat outcome \<times> 'v database" where
  "savePlaylist fails now name trks db =
     (let playlist =
            \<lparr>pl_name = name, pl_trackCount = length trks, pl_createdAt = now,
             pl_totalSize = 0, pl_id = None\<rparr>
      in if fails 0 then (Rejected RequestError, db)
         else
           (let playlistId = db_playlistKey db;
                db1 = playlistStore_add playlist db;
                (finished, totalSize, queue) = track_loop playlistId 0 trks 0 [];
                playlist' = playlist\<lparr>pl_id := Some playlistId, pl_totalSize := totalSize\<rparr>
            in if finished then
                 (Resolved playlistId,
                  case run_requests fails 1 (queue @ [playlistStore_put playlist']) db1 of
                    None \<Rightarrow> db
                  | Some db2 \<Rightarrow> db2)
               else
                 (case run_requests fails 1 queue db1 of
                    None \<Rightarrow> (Rejected RequestError, db)
                  | Some db2 \<Rightarrow> (Pending, db2))))"

text \<open>
  The success handler of \<^verbatim>\<open>tracksRequest\<close> in \<^verbatim>\<open>loadPlaylist\<close>, as a function of the
  records retrieved: a stable sort by \<^verbatim>\<open>order\<close>, then one playable track per record,
  its file a \<^verbatim>\<open>new File\<close>.
  \<open>createObjectURL k\<close> is the URL the \<open>k\<close>-th call of \<^verbatim>\<open>URL.createObjectURL\<close> returns.
\<close>

definition processedTrack :: "(nat \<Rightarrow> string) \<Rightarrow> nat \<times> track_record \<Rightarrow> track" where
  "processedTrack createObjectURL ir =
     (case ir of (index, r) \<Rightarrow>
        \<lparr>track_name = rec_name r,
         track_originalName = Some (rec_originalName r),
         track_file =
           \<lparr>file_name = rec_originalName r, file_type = rec_type r,
            file_bytes = file_bytes (rec_audioBlob r), file_isBlob = True\<rparr>,
         track_url = createObjectURL index,
         track_index = index\<rparr>)"

definition processedTracks :: "(nat \<Rightarrow> string) \<Rightarrow> track_record list \<Rightarrow> track list" where
  "processedTracks createObjectURL rs =
     map (processedTrack createObjectURL) (enumerate 0 (sort_key rec_order rs))"

text \<open>
  \<^verbatim>\<open>loadPlaylist(playlistId)\<close>, a read-only transaction of two requests: the \<^verbatim>\<open>get\<close> of
  the metadata and the \<^verbatim>\<open>getAll\<close> on the index.
\<close>

definition loadPlaylist ::
  "(nat \<Rightarrow> bool) \<Rightarrow> (nat \<Rightarrow> string) \<Rightarrow> nat \<Rightarrow> 'v database \<Rightarrow> (playlist \<times> track list) outcome" where
  "loadPlaylist fails createObjectURL playlistId db =
     (if fails 0 then Rejected RequestError
      else
        (case playlistStore_get playlistId db of
           None \<Rightarrow> Rejected RecordNotFound
         | Some playlist \<Rightarrow>
             if fails 1 then Rejected RequestError
             else Resolved (playlist, processedTracks createObjectURL (index_getAll playlistId db))))"

text \<open>
  \<^verbatim>\<open>deletePlaylist(playlistId)\<close>: the \<^verbatim>\<open>delete\<close> of the metadata, the \<^verbatim>\<open>openCursor\<close> on
  the index, and for every record the cursor visits a \<^verbatim>\<open>cursor.delete()\<close> and a
  \<^verbatim>\<open>cursor.continue()\<close>. The promise is resolved by \<^verbatim>\<open>transaction.oncomplete\<close> and
  rejected by \<^verbatim>\<open>transaction.onerror\<close>.
\<close>

definition deletePlaylist ::
  "(nat \<Rightarrow> bool) \<Rightarrow> nat \<Rightarrow> 'v database \<Rightarrow> unit outcome \<times> 'v database" where
  "deletePlaylist fails playlistId db =
     (let queue =
            [playlistStore_delete playlistId, cursor_move] @
            concat (map (\<lambda>r. [cursor_delete r, cursor_move]) (index_getAll playlistId db))
      in case run_requests fails 0 queue db of
           None \<Rightarrow> (Rejected RequestError, db)
         | Some db' \<Rightarrow> (Resolved (), db'))"

subsection \<open>Preferences\<close>

text \<open>
  \<^verbatim>\<open>savePreferences(prefs)\<close>: \<open>entries\<close> is \<^verbatim>\<open>Object.entries(prefs)\<close>, and \<open>now k\<close> the
  time stamp taken for the \<open>k\<close>-th entry.
\<close>

definition savePreferences ::
  "(nat \<Rightarrow> bool) \<Rightarrow> (nat \<Rightarrow> string) \<Rightarrow> (string \<times> 'v) list \<Rightarrow> 'v database \<Rightarrow> unit outcome \<times> 'v database" where
  "savePreferences fails now entries db =
     (let queue =
            map (\<lambda>(k, (key, value)).
                   preferences_put \<lparr>pref_key = key, pref_value = value, pref_updatedAt = now k\<rparr>)
              (enumerate 0 entries)
      in case run_requests fails 0 queue db of
           None \<Rightarrow> (Rejected RequestError, db)
         | Some db' \<Rightarrow> (Resolved (), db'))"

text \<open>
  \<^verbatim>\<open>loadPreferences()\<close>: the \<^verbatim>\<open>getAll\<close> of the store (request \<open>0\<close>), merged into the
  plain object \<^verbatim>\<open>prefs = {}\<close> by \<^verbatim>\<open>prefs[record.key] = record.value\<close>. The object is
  modelled by the map of its own properties. The assignment creates or overwrites an
  own property for every key but \<^verbatim>\<open>__proto__\<close>: that name is an accessor inherited from
  \<^verbatim>\<open>Object.prototype\<close>, and assigning to it calls the setter (which changes the prototype
  when the value is an object or \<^verbatim>\<open>null\<close>, and does nothing otherwise) and creates no
  own property.
\<close>

definition assign_property :: "(string \<rightharpoonup> 'v) \<Rightarrow> 'v preference \<Rightarrow> (string \<rightharpoonup> 'v)" where
  "assign_property prefs record =
     (if pref_key record = ''__proto__'' then prefs
      else prefs(pref_key record \<mapsto> pref_value record))"

definition merge_preferences :: "'v preference list \<Rightarrow> (string \<rightharpoonup> 'v)" where
  "merge_preferences records = foldl assign_property Map.empty records"

definition loadPreferences :: "(nat \<Rightarrow> bool) \<Rightarrow> 'v database \<Rightarrow> (string \<rightharpoonup> 'v) outcome" where
  "loadPreferences fails db =
     (if fails 0 then Rejected RequestError
      else Resolved (merge_preferences (db_preferences db)))"

subsection \<open>Well-formed and reachable databases\<close>

text \<open>
  What the object stores themselves maintain (keys are unique and below the key
  generator), and what the operations above maintain: a track record names a playlist
  key that has been issued.
\<close>

definition db_wf :: "'v database \<Rightarrow> bool" where
  "db_wf db \<longleftrightarrow>
     distinct (map pl_id (db_playlists db)) \<and>
     list_all (\<lambda>p. case pl_id p of None \<Rightarrow> False | Some k \<Rightarrow> k < db_playlistKey db)
       (db_playlists db) \<and>
     distinct (map rec_id (db_tracks db)) \<and>
     list_all (\<lambda>r. (case rec_id r of None \<Rightarrow> False | Some k \<Rightarrow> k < db_trackKey db) \<and>
                   rec_playlistId r < db_playlistKey db)
       (db_tracks db) \<and>
     distinct (map pref_key (db_preferences db))"

text \<open>The aggregate fields of every stored playlist agree with its track records.\<close>

definition aggregate_ok :: "'v database \<Rightarrow> bool" where
  "aggregate_ok db \<longleftrightarrow>
     list_all
       (\<lambda>p. case pl_id p of
               None \<Rightarrow> False
             | Some k \<Rightarrow>
                 pl_totalSize p = sum_list (map rec_size (index_getAll k db)) \<and>
                 pl_trackCount p = length (index_getAll k db))
       (db_playlists db)"

text \<open>
  The databases a consumer can observe: the empty database and what any sequence of
  the writing operations makes of it, whichever of their requests fail.
\<close>

inductive reachable :: "'v database \<Rightarrow> bool" where
  reachable_empty: "reachable empty_database"
| reachable_save: "reachable db \<Longrightarrow> reachable (snd (savePlaylist fails now name trks db))"
| reachable_delete: "reachable db \<Longrightarrow> reachable (snd (deletePlaylist fails playlistId db))"
| reachable_prefs: "reachable db \<Longrightarrow> reachable (snd (savePreferences fails nows entries db))"

text \<open>An environment in which no request fails.\<close>

definition no_failure :: "nat \<Rightarrow> bool" where
  "no_failure k = False"

text \<open>
  For comparison with \<^verbatim>\<open>savePlaylist\<close>: the track records of a fully saved playlist
  (keys counted up from \<open>key\<close>, \<^verbatim>\<open>order\<close> counted up from \<open>i\<close>), and the database that
  holds the whole playlist: the metadata with its patched \<^verbatim>\<open>totalSize\<close> and every track.
\<close>

fun stored_tracks :: "nat \<Rightarrow> nat \<Rightarrow> nat \<Rightarrow> track list \<Rightarrow> track_record list" where
  "stored_tracks playlistId key i [] = []"
| "stored_tracks playlistId key i (t # ts) =
     (trackData playlistId i t)\<lparr>rec_id := Some key\<rparr> #
     stored_tracks playlistId (Suc key) (Suc i) ts"

definition fully_saved :: "string \<Rightarrow> string \<Rightarrow> track list \<Rightarrow> 'v database \<Rightarrow> 'v database" where
  "fully_saved now name trks db =
     db\<lparr>db_playlists :=
          db_playlists db @
          [\<lparr>pl_name = name, pl_trackCount = length trks, pl_createdAt = now,
            pl_totalSize = sum_list (map (\<lambda>t. blob_size (track_file t)) trks),
            pl_id = Some (db_playlistKey db)\<rparr>],
        db_playlistKey := db_playlistKey db + 1,
        db_tracks := db_tracks db @ stored_tracks (db_playlistKey db) (db_trackKey db) 0 trks,
        db_trackKey := db_trackKey db + length trks\<rparr>"

text \<open>
  The tracks the loop of \<^verbatim>\<open>savePlaylist\<close> reaches before it is suspended (all of them,
  when every file is a \<^verbatim>\<open>Blob\<close>), and the database that holds the metadata as first
  added, with \<^verbatim>\<open>totalSize\<close> \<open>0\<close>, and the records of these tracks only.
\<close>

definition blob_tracks :: "track list \<Rightarrow> track list" where
  "blob_tracks trks = takeWhile (\<lambda>t. file_isBlob (track_file t)) trks"

definition partly_saved :: "string \<Rightarrow> string \<Rightarrow> track list \<Rightarrow> 'v database \<Rightarrow> 'v database" where
  "partly_saved now name trks db =
     db\<lparr>db_playlists :=
          db_playlists db @
          [\<lparr>pl_name = name, pl_trackCount = length trks, pl_createdAt = now,
            pl_totalSize = 0, pl_id = Some (db_playlistKey db)\<rparr>],
        db_playlistKey := db_playlistKey db + 1,
        db_tracks :=
          db_tracks db @ stored_tracks (db_playlistKey db) (db_trackKey db) 0 (blob_tracks trks),
        db_trackKey := db_trackKey db + length (blob_tracks trks)\<rparr>"

text \<open>
  For comparison with \<^verbatim>\<open>deletePlaylist\<close>: the database without the playlist and without
  every record the cursor visited.
\<close>

definition fully_deleted :: "nat \<Rightarrow> 'v database \<Rightarrow> 'v database" where
  "fully_deleted playlistId db =
     db\<lparr>db_playlists := filter (\<lambda>p. pl_id p \<noteq> Some playlistId) (db_playlists db),
        db_tracks :=
          filter (\<lambda>x. rec_id x \<notin> rec_id ` set (index_getAll playlistId db)) (db_tracks db)\<rparr>"

text \<open>
  The record \<^verbatim>\<open>savePreferences\<close> puts for the \<open>k\<close>-th entry, and the key/value pair that
  \<^verbatim>\<open>loadPreferences\<close> reads off a record.
\<close>

abbreviation (input) entry_put :: "(nat \<Rightarrow> string) \<Rightarrow> nat \<times> string \<times> 'v \<Rightarrow> 'v preference" where
  "entry_put now \<equiv> \<lambda>(k, (key, value)). \<lparr>pref_key = key, pref_value = value, pref_updatedAt = now k\<rparr>"

abbreviation (input) key_value :: "'v preference \<Rightarrow> string \<times> 'v" where
  "key_value \<equiv> \<lambda>r. (pref_key r, pref_value r)"


section \<open>The initial state and sample inputs\<close>

text \<open>The initial value of \<^verbatim>\<open>state\<close> in \<^verbatim>\<open>src/app.js\<close>.\<close>

definition initial_state :: player_state where
  "initial_state =
     \<lparr>tracks = [], currentIndex = 0, isPlaying = False, shuffleMode = False,
      shuffledOrder = [], shuffledIndex = 0, volume = 0.75, currentPlaylistId = None,
      savedPlaylists = []\<rparr>"

definition sample_name :: "nat \<Rightarrow> string" where
  "sample_name i = (if i = 0 then ''Intro'' else if i = 1 then ''Verse'' else ''Outro'')"

definition sample_file :: "nat \<Rightarrow> js_file" where
  "sample_file i =
     \<lparr>file_name = sample_name i @ ''.mp3'', file_type = ''audio/mpeg'',
      file_bytes = [of_nat i, 2, 3], file_isBlob = True\<rparr>"

definition sample_track :: "nat \<Rightarrow> track" where
  "sample_track i =
     \<lparr>track_name = sample_name i, track_originalName = None, track_file = sample_file i,
      track_url = ''blob:'' @ sample_name i, track_index = i\<rparr>"

definition sample_state :: "nat \<Rightarrow> int \<Rightarrow> player_state" where
  "sample_state n i = initial_state\<lparr>tracks := map sample_track [0..<n], currentIndex := i\<rparr>"

definition zero_draws :: "nat \<Rightarrow> unit_draw" where
  "zero_draws k = draw_zero"

text \<open>
  Values of preferences (\<^verbatim>\<open>volume\<close> and \<^verbatim>\<open>lastTrackIndex\<close> are numbers, \<^verbatim>\<open>shuffleMode\<close> is a
  boolean), an environment in which exactly the \<open>n\<close>-th request fails, and sample
  inputs and databases.
\<close>

datatype js_value = Number real | Boolean bool

definition fails_at :: "nat \<Rightarrow> nat \<Rightarrow> bool" where
  "fails_at n k \<longleftrightarrow> k = n"

definition sample_time :: "nat \<Rightarrow> string" where
  "sample_time k = ''2024-05-01T10:00:00.000Z''"

definition sample_url :: "nat \<Rightarrow> string" where
  "sample_url k = ''blob:wmd''"

definition three_tracks :: "track list" where
  "three_tracks = [sample_track 0, sample_track 1, sample_track 2]"




definition road_trip :: "js_value database" where
  "road_trip =
     snd (savePlaylist no_failure (sample_time 0) ''Road Trip'' three_tracks
            empty_database)"


text \<open>
  Three tracks loaded while shuffle was off, then a stored \<^verbatim>\<open>shuffleMode = true\<close> applied
  by \<^verbatim>\<open>initializeStorage\<close> (\<^verbatim>\<open>state.shuffleMode = prefs.shuffleMode\<close>), which generates no
  order.
\<close>

definition restored_shuffle :: player_state where
  "restored_shuffle = (sample_state 3 0)\<lparr>shuffleMode := True\<rparr>"


section \<open>Properties of the order engine\<close>

lemma random_index_less: "0 < n \<Longrightarrow> random_index r n < n"
proof -
  assume n: "0 < n"
  have r: "0 \<le> Rep_unit_draw r" "Rep_unit_draw r < 1"
    using Rep_unit_draw [of r] by auto
  have "Rep_unit_draw r * real n < real n"
    using r n by simp
  then have "\<lfloor>Rep_unit_draw r * real n\<rfloor> < int n"
    by (simp add: floor_less_iff)
  moreover have "0 \<le> \<lfloor>Rep_unit_draw r * real n\<rfloor>"
    using r by simp
  ultimately show ?thesis
    unfolding random_index_def by linarith
qed

lemma length_swap: "length (swap i j xs) = length xs"
  by (simp add: swap_def)

lemma mset_swap_list: "i < length xs \<Longrightarrow> j < length xs \<Longrightarrow> mset (swap i j xs) = mset xs"
  unfolding swap_def by (simp add: mset_swap)

lemma shuffle_loop_mset:
  "i < length xs \<Longrightarrow> mset (shuffle_loop rnd k i xs) = mset xs"
proof (induction i arbitrary: k xs)
  case 0
  then show ?case by simp
next
  case (Suc i)
  have j: "random_index (rnd k) (Suc i + 1) < Suc i + 1"
    by (rule random_index_less) simp
  then have "random_index (rnd k) (Suc i + 1) < length xs"
    using Suc.prems by simp
  then have "mset (swap (Suc i) (random_index (rnd k) (Suc i + 1)) xs) = mset xs"
    using Suc.prems by (simp add: mset_swap_list)
  moreover have "i < length (swap (Suc i) (random_index (rnd k) (Suc i + 1)) xs)"
    using Suc.prems by (simp add: length_swap)
  ultimately show ?case
    using Suc.IH by (simp add: Let_def)
qed

lemma indexOf_notin: "v \<notin> set xs \<Longrightarrow> indexOf xs v = - 1"
  by (induction xs) (auto simp: Let_def)

lemma indexOf_in:
  "v \<in> set xs \<Longrightarrow> 0 \<le> indexOf xs v \<and> indexOf xs v < int (length xs) \<and> xs ! nat (indexOf xs v) = v"
proof (induction xs)
  case Nil
  then show ?case by simp
next
  case (Cons x xs)
  show ?case
  proof (cases "x = v")
    case True
    then show ?thesis by simp
  next
    case False
    with Cons.prems have "v \<in> set xs" by simp
    from Cons.IH [OF this] False show ?thesis
      by (simp add: Let_def nat_add_distrib)
  qed
qed

lemma indexOf_nth: "distinct xs \<Longrightarrow> k < length xs \<Longrightarrow> indexOf xs (xs ! k) = int k"
proof (induction xs arbitrary: k)
  case Nil
  then show ?case by simp
next
  case (Cons x xs)
  show ?case
  proof (cases k)
    case 0
    then show ?thesis by simp
  next
    case (Suc m)
    with Cons.prems have m: "m < length xs" and d: "distinct xs" and x: "x \<notin> set xs"
      by auto
    from m x have "x \<noteq> xs ! m" by (metis nth_mem)
    with Cons.IH [OF d m] Suc show ?thesis
      by (simp add: Let_def)
  qed
qed

lemma indexOf_map_Some: "indexOf (map Some xs) (Some v) = indexOf xs v"
  by (induction xs) (auto simp: Let_def)

lemma js_rem_nonneg: "0 \<le> a \<Longrightarrow> 0 < n \<Longrightarrow> js_rem a n = a mod n"
  by (cases "a = 0") (simp_all add: js_rem_def)

lemma generateShuffledOrder_mset:
  "mset (shuffledOrder (generateShuffledOrder rnd s)) = mset (map int [0..<length (tracks s)])"
proof (cases "length (tracks s) = 0")
  case True
  then show ?thesis by (simp add: generateShuffledOrder_def)
next
  case False
  then have "length (tracks s) - 1 < length (map int [0..<length (tracks s)])"
    by simp
  from shuffle_loop_mset [OF this] show ?thesis
    by (simp add: generateShuffledOrder_def Let_def)
qed

lemma generateShuffledOrder_set:
  "set (shuffledOrder (generateShuffledOrder rnd s)) = {0..<int (length (tracks s))}"
proof -
  have "set (shuffledOrder (generateShuffledOrder rnd s)) = set (map int [0..<length (tracks s)])"
    using generateShuffledOrder_mset [of rnd s] by (rule mset_eq_setD)
  also have "\<dots> = {0..<int (length (tracks s))}"
    by (simp add: image_int_atLeastLessThan)
  finally show ?thesis .
qed

lemma generateShuffledOrder_distinct:
  "distinct (shuffledOrder (generateShuffledOrder rnd s))"
proof -
  have "distinct (map int [0..<length (tracks s)])"
    by (simp add: distinct_map)
  then show ?thesis
    using generateShuffledOrder_mset [of rnd s] by (metis mset_eq_imp_distinct_iff)
qed

lemma generateShuffledOrder_length:
  "length (shuffledOrder (generateShuffledOrder rnd s)) = length (tracks s)"
  using generateShuffledOrder_mset [of rnd s] by (metis length_map length_upt mset_eq_length minus_nat.diff_0)

lemma generateShuffledOrder_frame:
  "tracks (generateShuffledOrder rnd s) = tracks s"
  "currentIndex (generateShuffledOrder rnd s) = currentIndex s"
  "shuffleMode (generateShuffledOrder rnd s) = shuffleMode s"
  "shuffledIndex (generateShuffledOrder rnd s) = 0"
  by (simp_all add: generateShuffledOrder_def Let_def)

subsection \<open>Shuffle coverage\<close>

text \<open>
  Claim C3. For every track count \<open>n\<close> and every sequence of random draws, the order
  produced by \<^verbatim>\<open>generateShuffledOrder\<close> is a bijection over \<open>[0, n)\<close>: it has \<open>n\<close> entries,
  no entry occurs twice, and its entries are exactly the indices \<open>0, \<dots>, n - 1\<close>; as a
  multiset it is the multiset of these indices, so every index appears exactly once.
\<close>

theorem generateShuffledOrder_bijection:
  "length (shuffledOrder (generateShuffledOrder rnd s)) = length (tracks s) \<and>
   distinct (shuffledOrder (generateShuffledOrder rnd s)) \<and>
   set (shuffledOrder (generateShuffledOrder rnd s)) = {0..<int (length (tracks s))} \<and>
   mset (shuffledOrder (generateShuffledOrder rnd s)) = mset (map int [0..<length (tracks s)])"
  by (simp add: generateShuffledOrder_length generateShuffledOrder_distinct
      generateShuffledOrder_set generateShuffledOrder_mset)

lemma loadTrack_in_range:
  "0 \<le> i \<Longrightarrow> i < int (length (tracks s)) \<Longrightarrow> loadTrack (Some i) s = Inr (s\<lparr>currentIndex := i\<rparr>)"
  by (simp add: loadTrack_def)

lemma loadTrack_out_of_range:
  "i < 0 \<or> int (length (tracks s)) \<le> i \<Longrightarrow> loadTrack (Some i) s = Inr s"
  by (auto simp: loadTrack_def)

lemma playNext_sequential:
  assumes "\<not> shuffleMode s" "tracks s \<noteq> []"
    and "0 \<le> currentIndex s" "currentIndex s < int (length (tracks s))"
  shows "playNext s = Inr (s\<lparr>currentIndex := (currentIndex s + 1) mod int (length (tracks s))\<rparr>)"
proof -
  let ?n = "int (length (tracks s))"
  have n: "0 < ?n" using assms(2) by simp
  have r: "js_rem (currentIndex s + 1) ?n = (currentIndex s + 1) mod ?n"
    using assms(3) n by (simp add: js_rem_nonneg)
  have "0 \<le> (currentIndex s + 1) mod ?n" "(currentIndex s + 1) mod ?n < ?n"
    using n by simp_all
  then have "loadTrack (Some ((currentIndex s + 1) mod ?n)) s
      = Inr (s\<lparr>currentIndex := (currentIndex s + 1) mod ?n\<rparr>)"
    by (rule loadTrack_in_range)
  then show ?thesis
    using assms(1,2) r by (simp add: playNext_def playTrack_def Let_def)
qed

lemma playPrevious_sequential:
  assumes "\<not> shuffleMode s" "tracks s \<noteq> []"
    and "0 \<le> currentIndex s" "currentIndex s < int (length (tracks s))"
    and "ct \<le> 3"
  shows "playPrevious ct s =
    Inr (s\<lparr>currentIndex := (currentIndex s - 1 + int (length (tracks s))) mod int (length (tracks s))\<rparr>)"
proof -
  let ?n = "int (length (tracks s))"
  let ?p = "(currentIndex s - 1 + ?n) mod ?n"
  have n: "0 < ?n" using assms(2) by simp
  have "0 \<le> currentIndex s - 1 + ?n"
    using assms(3) n by linarith
  then have r: "js_rem (currentIndex s - 1 + ?n) ?n = ?p"
    using n by (rule js_rem_nonneg)
  have "0 \<le> ?p" "?p < ?n"
    using n by simp_all
  then have "loadTrack (Some ?p) s = Inr (s\<lparr>currentIndex := ?p\<rparr>)"
    by (rule loadTrack_in_range)
  then show ?thesis
    using assms(1,2,5) r by (simp add: playPrevious_def playTrack_def Let_def)
qed

lemma playPrevious_restart:
  "3 < ct \<Longrightarrow> playPrevious ct s = Inr s"
  by (simp add: playPrevious_def)

lemma playNext_times_sequential:
  assumes "\<not> shuffleMode s" "tracks s \<noteq> []"
    and "0 \<le> currentIndex s" "currentIndex s < int (length (tracks s))"
  shows "playNext_times k s =
    Inr (s\<lparr>currentIndex := (currentIndex s + int k) mod int (length (tracks s))\<rparr>)"
  using assms
proof (induction k arbitrary: s)
  case 0
  then show ?case by simp
next
  case (Suc k)
  let ?n = "int (length (tracks s))"
  let ?s1 = "s\<lparr>currentIndex := (currentIndex s + 1) mod ?n\<rparr>"
  have n: "0 < ?n" using Suc.prems(2) by simp
  have step: "playNext s = Inr ?s1"
    using Suc.prems by (rule playNext_sequential)
  have "playNext_times k ?s1 =
      Inr (?s1\<lparr>currentIndex := (currentIndex ?s1 + int k) mod int (length (tracks ?s1))\<rparr>)"
    using Suc.prems n by (intro Suc.IH) simp_all
  moreover have "((currentIndex s + 1) mod ?n + int k) mod ?n = (currentIndex s + int (Suc k)) mod ?n"
  proof -
    have "((currentIndex s + 1) mod ?n + int k) mod ?n = ((currentIndex s + 1) + int k) mod ?n"
      by (rule mod_add_left_eq)
    also have "(currentIndex s + 1) + int k = currentIndex s + int (Suc k)"
      by simp
    finally show ?thesis .
  qed
  ultimately show ?case
    using step by simp
qed

lemma playPrevious_times_sequential:
  assumes "\<not> shuffleMode s" "tracks s \<noteq> []"
    and "0 \<le> currentIndex s" "currentIndex s < int (length (tracks s))"
    and "\<forall>ct \<in> set cts. ct \<le> 3"
  shows "playPrevious_times cts s =
    Inr (s\<lparr>currentIndex := (currentIndex s - int (length cts)) mod int (length (tracks s))\<rparr>)"
  using assms
proof (induction cts arbitrary: s)
  case Nil
  then show ?case by simp
next
  case (Cons ct cts)
  let ?n = "int (length (tracks s))"
  let ?s1 = "s\<lparr>currentIndex := (currentIndex s - 1 + ?n) mod ?n\<rparr>"
  have n: "0 < ?n" using Cons.prems(2) by simp
  have step: "playPrevious ct s = Inr ?s1"
    using Cons.prems by (intro playPrevious_sequential) simp_all
  have "playPrevious_times cts ?s1 =
      Inr (?s1\<lparr>currentIndex := (currentIndex ?s1 - int (length cts)) mod int (length (tracks ?s1))\<rparr>)"
    using Cons.prems n by (intro Cons.IH) simp_all
  moreover have "((currentIndex s - 1 + ?n) mod ?n - int (length cts)) mod ?n
      = (currentIndex s - int (length (ct # cts))) mod ?n"
  proof -
    have "((currentIndex s - 1 + ?n) mod ?n - int (length cts)) mod ?n
        = ((currentIndex s - 1 + ?n) - int (length cts)) mod ?n"
      by (rule mod_diff_left_eq)
    also have "\<dots> = ((currentIndex s - int (length (ct # cts))) + ?n) mod ?n"
      by (simp add: algebra_simps)
    also have "\<dots> = (currentIndex s - int (length (ct # cts))) mod ?n"
      by simp
    finally show ?thesis .
  qed
  ultimately show ?case
    using step by simp
qed

subsection \<open>Sequential mode\<close>

text \<open>
  Claim C7, as amended. In sequential mode, for every track count \<open>n \<ge> 1\<close> and every
  current index in \<open>[0, n)\<close>: \<^verbatim>\<open>playNext\<close> moves to \<open>(currentIndex + 1) mod n\<close>;
  \<^verbatim>\<open>playPrevious\<close> moves to \<open>(currentIndex - 1 + n) mod n\<close> when the audio position is at
  most three seconds, and leaves the index where it is (the track is restarted) when the
  position is beyond three seconds; \<open>n\<close> calls of \<^verbatim>\<open>playNext\<close> return to the starting
  state, and so do \<open>n\<close> calls of \<^verbatim>\<open>playPrevious\<close> each made at a position of at most
  three seconds.
\<close>

theorem sequential_order_consistency:
  assumes "\<not> shuffleMode s" and "tracks s \<noteq> []"
    and "0 \<le> currentIndex s" and "currentIndex s < int (length (tracks s))"
  shows "playNext s = Inr (s\<lparr>currentIndex := (currentIndex s + 1) mod int (length (tracks s))\<rparr>) \<and>
    (ct \<le> 3 \<longrightarrow> playPrevious ct s =
        Inr (s\<lparr>currentIndex := (currentIndex s - 1 + int (length (tracks s))) mod int (length (tracks s))\<rparr>)) \<and>
    (3 < ct \<longrightarrow> playPrevious ct s = Inr s) \<and>
    playNext_times (length (tracks s)) s = Inr s \<and>
    (length cts = length (tracks s) \<and> (\<forall>c \<in> set cts. c \<le> 3) \<longrightarrow> playPrevious_times cts s = Inr s)"
proof -
  let ?n = "int (length (tracks s))"
  have a: "(currentIndex s + ?n) mod ?n = currentIndex s"
    using assms(3,4) by simp
  have b: "length cts = length (tracks s) \<Longrightarrow> (currentIndex s - int (length cts)) mod ?n = currentIndex s"
    using assms(3,4) by (simp add: mod_diff_right_eq [symmetric])
  show ?thesis
    using playNext_sequential [OF assms] playPrevious_sequential [OF assms, of ct]
      playPrevious_restart [of ct s] playNext_times_sequential [OF assms, of "length (tracks s)"]
      playPrevious_times_sequential [OF assms, of cts] a b
    by simp
qed

lemma toggleShuffle_on_eq:
  "\<not> shuffleMode s \<Longrightarrow> tracks s \<noteq> [] \<Longrightarrow>
   toggleShuffle rnd s =
     (generateShuffledOrder rnd (s\<lparr>shuffleMode := True\<rparr>))
       \<lparr>shuffledIndex :=
          indexOf (shuffledOrder (generateShuffledOrder rnd (s\<lparr>shuffleMode := True\<rparr>))) (currentIndex s)\<rparr>"
  by (simp add: toggleShuffle_def Let_def generateShuffledOrder_frame)

subsection \<open>Switching to shuffle\<close>

text \<open>
  Claim C2, as amended. When \<^verbatim>\<open>toggleShuffle\<close> switches shuffle on and the track list is
  not empty, a fresh permutation of \<open>[0, n)\<close> is generated and the cursor is set to
  \<^verbatim>\<open>indexOf(currentIndex)\<close> in it: the position of \<open>currentIndex\<close> when
  \<open>0 \<le> currentIndex < n\<close>, and \<open>-1\<close> when \<open>currentIndex\<close> is not in the permutation. With
  an empty track list only the mode changes: no permutation is generated and the cursor
  keeps its value. No case raises an error; tracks and current index are never changed.
\<close>

theorem toggleShuffle_to_shuffled:
  assumes off: "\<not> shuffleMode s"
  shows "shuffleMode (toggleShuffle rnd s) \<and>
    tracks (toggleShuffle rnd s) = tracks s \<and>
    currentIndex (toggleShuffle rnd s) = currentIndex s \<and>
    (tracks s \<noteq> [] \<longrightarrow>
       length (shuffledOrder (toggleShuffle rnd s)) = length (tracks s) \<and>
       distinct (shuffledOrder (toggleShuffle rnd s)) \<and>
       set (shuffledOrder (toggleShuffle rnd s)) = {0..<int (length (tracks s))} \<and>
       shuffledIndex (toggleShuffle rnd s) =
         indexOf (shuffledOrder (toggleShuffle rnd s)) (currentIndex s) \<and>
       (0 \<le> currentIndex s \<and> currentIndex s < int (length (tracks s)) \<longrightarrow>
          0 \<le> shuffledIndex (toggleShuffle rnd s) \<and>
          shuffledIndex (toggleShuffle rnd s) < int (length (tracks s)) \<and>
          shuffledOrder (toggleShuffle rnd s) ! nat (shuffledIndex (toggleShuffle rnd s))
            = currentIndex s) \<and>
       (currentIndex s < 0 \<or> int (length (tracks s)) \<le> currentIndex s \<longrightarrow>
          shuffledIndex (toggleShuffle rnd s) = - 1)) \<and>
    (tracks s = [] \<longrightarrow> toggleShuffle rnd s = s\<lparr>shuffleMode := True\<rparr>)"
proof (cases "tracks s = []")
  case True
  then show ?thesis
    using off by (simp add: toggleShuffle_def)
next
  case False
  let ?g = "generateShuffledOrder rnd (s\<lparr>shuffleMode := True\<rparr>)"
  let ?t = "toggleShuffle rnd s"
  have t: "?t = ?g\<lparr>shuffledIndex := indexOf (shuffledOrder ?g) (currentIndex s)\<rparr>"
    using off False by (rule toggleShuffle_on_eq)
  have order: "shuffledOrder ?t = shuffledOrder ?g"
    by (simp add: t)
  have len: "length (shuffledOrder ?t) = length (tracks s)"
    using generateShuffledOrder_length [of rnd "s\<lparr>shuffleMode := True\<rparr>"] order by simp
  have dist: "distinct (shuffledOrder ?t)"
    using generateShuffledOrder_distinct [of rnd "s\<lparr>shuffleMode := True\<rparr>"] order by simp
  have set: "set (shuffledOrder ?t) = {0..<int (length (tracks s))}"
    using generateShuffledOrder_set [of rnd "s\<lparr>shuffleMode := True\<rparr>"] order by simp
  have cursor: "shuffledIndex ?t = indexOf (shuffledOrder ?t) (currentIndex s)"
    by (simp add: t)
  have frame: "shuffleMode ?t" "tracks ?t = tracks s" "currentIndex ?t = currentIndex s"
    by (simp_all add: t generateShuffledOrder_frame)
  have found: "0 \<le> shuffledIndex ?t \<and> shuffledIndex ?t < int (length (tracks s)) \<and>
      shuffledOrder ?t ! nat (shuffledIndex ?t) = currentIndex s"
    if "0 \<le> currentIndex s \<and> currentIndex s < int (length (tracks s))"
  proof -
    from that set have "currentIndex s \<in> set (shuffledOrder ?t)" by simp
    from indexOf_in [OF this] show ?thesis
      using cursor len by simp
  qed
  have missing: "shuffledIndex ?t = - 1"
    if "currentIndex s < 0 \<or> int (length (tracks s)) \<le> currentIndex s"
  proof -
    from that set have "currentIndex s \<notin> set (shuffledOrder ?t)" by auto
    from indexOf_notin [OF this] show ?thesis
      using cursor by simp
  qed
  show ?thesis
    using False frame len dist set cursor found missing by blast
qed

lemma playNext_shuffled:
  assumes "shuffleMode s" "tracks s \<noteq> []"
    and "length (shuffledOrder s) = length (tracks s)" "distinct (shuffledOrder s)"
    and "set (shuffledOrder s) = {0..<int (length (tracks s))}"
    and "- 1 \<le> shuffledIndex s"
  shows "playNext s =
    Inr (s\<lparr>currentIndex :=
              shuffledOrder s ! nat ((shuffledIndex s + 1) mod int (length (tracks s))),
           shuffledIndex := (shuffledIndex s + 1) mod int (length (tracks s))\<rparr>)"
proof -
  let ?n = "int (length (tracks s))"
  let ?c = "(shuffledIndex s + 1) mod ?n"
  let ?v = "shuffledOrder s ! nat ?c"
  have n: "0 < ?n" using assms(2) by simp
  have "0 \<le> shuffledIndex s + 1" using assms(6) by simp
  then have r: "js_rem (shuffledIndex s + 1) ?n = ?c"
    using n by (rule js_rem_nonneg)
  have c: "0 \<le> ?c" "?c < ?n" using n by simp_all
  then have k: "nat ?c < length (shuffledOrder s)"
    using assms(3) by simp
  then have "?v \<in> set (shuffledOrder s)" by simp
  then have v: "0 \<le> ?v" "?v < ?n" using assms(5) by simp_all
  have nth: "js_nth (shuffledOrder s) ?c = Some ?v"
    using c assms(3) by (simp add: js_nth_def)
  have load: "loadTrack (Some ?v) (s\<lparr>shuffledIndex := ?c\<rparr>) = Inr (s\<lparr>shuffledIndex := ?c, currentIndex := ?v\<rparr>)"
    using v by (simp add: loadTrack_def)
  have pos: "indexOf (map Some (shuffledOrder s)) (Some ?v) = ?c"
    using indexOf_nth [OF assms(4) k] c by (simp add: indexOf_map_Some)
  show ?thesis
    using assms(1,2,3) r nth load pos
    by (simp add: playNext_def playTrack_def Let_def)
qed

subsection \<open>The cursor after a regeneration\<close>

text \<open>
  Claim C10, as amended. \<^verbatim>\<open>generateShuffledOrder\<close> always sets the cursor to \<open>0\<close>,
  whatever track is current and whatever the cursor was. With \<open>n \<ge> 1\<close> tracks in shuffle
  mode, the first \<^verbatim>\<open>playNext\<close> after it moves the cursor to \<open>1 mod n\<close> and plays the
  permutation entry there: position \<open>1\<close> when \<open>n \<ge> 2\<close>, position \<open>0\<close> when \<open>n = 1\<close>.
\<close>

theorem regenerate_resets_cursor:
  "shuffledIndex (generateShuffledOrder rnd s) = 0 \<and>
   (shuffleMode s \<and> tracks s \<noteq> [] \<longrightarrow>
      playNext (generateShuffledOrder rnd s) =
        Inr ((generateShuffledOrder rnd s)
              \<lparr>currentIndex :=
                 shuffledOrder (generateShuffledOrder rnd s) ! (1 mod length (tracks s)),
               shuffledIndex := int (1 mod length (tracks s))\<rparr>))"
proof -
  let ?g = "generateShuffledOrder rnd s"
  have z: "shuffledIndex ?g = 0"
    by (simp add: generateShuffledOrder_frame)
  have "playNext ?g =
      Inr (?g\<lparr>currentIndex := shuffledOrder ?g ! (1 mod length (tracks s)),
              shuffledIndex := int (1 mod length (tracks s))\<rparr>)"
    if "shuffleMode s" "tracks s \<noteq> []"
  proof -
    have m: "(1::int) mod int (length (tracks s)) = int (1 mod length (tracks s))"
      using zmod_int [of 1 "length (tracks s)"] by (simp only: of_nat_1)
    have "playNext ?g =
      Inr (?g\<lparr>currentIndex :=
              shuffledOrder ?g ! nat ((shuffledIndex ?g + 1) mod int (length (tracks ?g))),
            shuffledIndex := (shuffledIndex ?g + 1) mod int (length (tracks ?g))\<rparr>)"
      using that
      by (intro playNext_shuffled)
        (simp_all add: generateShuffledOrder_frame generateShuffledOrder_length
          generateShuffledOrder_distinct generateShuffledOrder_set)
    then show ?thesis
      by (simp add: generateShuffledOrder_frame m)
  qed
  with z show ?thesis by blast
qed

lemma playTrack_Some: "\<exists>s'. playTrack (Some i) s = Inr s'"
  by (simp add: playTrack_def loadTrack_def)

lemma playTrack_no_error: "\<not> isl (playTrack (Some i) s)"
  using playTrack_Some [of i s] by auto

lemma playTrack_out_of_range:
  "i < 0 \<or> int (length (tracks s)) \<le> i \<Longrightarrow>
   playTrack (Some i) s =
     Inr (if shuffleMode s then s\<lparr>shuffledIndex := indexOf (shuffledOrder s) i\<rparr> else s)"
  by (auto simp: playTrack_def loadTrack_def indexOf_map_Some)

lemma js_rem_cursor_range:
  assumes "- 1 \<le> a" "0 < n" "a = - 1 \<longrightarrow> n = 1"
  shows "0 \<le> js_rem a n \<and> js_rem a n < n"
proof (cases "a = - 1")
  case True
  with assms(3) show ?thesis by (simp add: js_rem_def)
next
  case False
  with assms(1) have "0 \<le> a" by simp
  then show ?thesis using assms(2) by (simp add: js_rem_nonneg)
qed

lemma playNext_sequential_no_error: "\<not> shuffleMode s \<Longrightarrow> \<not> isl (playNext s)"
  by (simp add: playNext_def Let_def playTrack_no_error)

lemma playPrevious_sequential_no_error: "\<not> shuffleMode s \<Longrightarrow> \<not> isl (playPrevious ct s)"
  by (simp add: playPrevious_def Let_def playTrack_no_error)

lemma playNext_shuffled_no_error:
  assumes "shuffledOrder s \<noteq> []" "- 1 \<le> shuffledIndex s"
  shows "\<not> isl (playNext s)"
proof -
  let ?n = "int (length (shuffledOrder s))"
  have "0 \<le> js_rem (shuffledIndex s + 1) ?n \<and> js_rem (shuffledIndex s + 1) ?n < ?n"
    using assms by (intro js_rem_cursor_range) simp_all
  then obtain v where "js_nth (shuffledOrder s) (js_rem (shuffledIndex s + 1) ?n) = Some v"
    by (simp add: js_nth_def)
  then show ?thesis
    using assms(1) by (simp add: playNext_def Let_def playTrack_no_error)
qed

lemma playPrevious_shuffled_no_error:
  assumes "shuffledOrder s \<noteq> []" "- 1 \<le> shuffledIndex s"
  shows "\<not> isl (playPrevious ct s)"
proof -
  let ?n = "int (length (shuffledOrder s))"
  let ?a = "shuffledIndex s - 1 + ?n"
  have n: "1 \<le> ?n" using assms(1) by (cases "shuffledOrder s") simp_all
  have "0 \<le> js_rem ?a ?n \<and> js_rem ?a ?n < ?n"
    using assms(2) n by (intro js_rem_cursor_range) linarith+
  then obtain v where "js_nth (shuffledOrder s) (js_rem ?a ?n) = Some v"
    by (simp add: js_nth_def)
  then show ?thesis
    using assms(1) by (simp add: playPrevious_def Let_def playTrack_no_error)
qed

subsection \<open>Empty lists and out-of-range indices\<close>

text \<open>
  With an empty track list \<^verbatim>\<open>playNext\<close> and \<^verbatim>\<open>playPrevious\<close> return without an error and
  leave the whole state unchanged; \<^verbatim>\<open>toggleShuffle\<close> then only flips the mode and
  \<^verbatim>\<open>generateShuffledOrder\<close> yields the empty permutation. An index outside \<open>[0, n)\<close> makes
  \<^verbatim>\<open>loadTrack\<close> return with the state unchanged and \<^verbatim>\<open>playTrack\<close> return without an
  error. In sequential mode \<^verbatim>\<open>playNext\<close> and \<^verbatim>\<open>playPrevious\<close> raise no error whatever the
  current index is. In shuffle mode they raise none as long as the permutation is not
  empty and the cursor is at least \<open>-1\<close>; nothing in the code keeps the permutation
  non-empty, and the next theorem is a state in which it is empty.
\<close>

lemma safe_calls:
  "(tracks s = [] \<longrightarrow>
      playNext s = Inr s \<and> playPrevious ct s = Inr s \<and>
      toggleShuffle rnd s = s\<lparr>shuffleMode := \<not> shuffleMode s\<rparr> \<and>
      generateShuffledOrder rnd s = s\<lparr>shuffledOrder := [], shuffledIndex := 0\<rparr>) \<and>
   (i < 0 \<or> int (length (tracks s)) \<le> i \<longrightarrow>
      loadTrack (Some i) s = Inr s \<and>
      playTrack (Some i) s =
        Inr (if shuffleMode s then s\<lparr>shuffledIndex := indexOf (shuffledOrder s) i\<rparr> else s)) \<and>
   (\<not> shuffleMode s \<longrightarrow> \<not> isl (playNext s) \<and> \<not> isl (playPrevious ct s)) \<and>
   (shuffleMode s \<and> shuffledOrder s \<noteq> [] \<and> - 1 \<le> shuffledIndex s \<longrightarrow>
      \<not> isl (playNext s) \<and> \<not> isl (playPrevious ct s))"
proof -
  have empty: "playNext s = Inr s \<and> playPrevious ct s = Inr s \<and>
      toggleShuffle rnd s = s\<lparr>shuffleMode := \<not> shuffleMode s\<rparr> \<and>
      generateShuffledOrder rnd s = s\<lparr>shuffledOrder := [], shuffledIndex := 0\<rparr>"
    if "tracks s = []"
    using that
    by (simp add: playNext_def playPrevious_def toggleShuffle_def generateShuffledOrder_def)
  show ?thesis
    using empty loadTrack_out_of_range [of i s] playTrack_out_of_range [of i s]
      playNext_sequential_no_error [of s] playPrevious_sequential_no_error [of s ct]
      playNext_shuffled_no_error [of s] playPrevious_shuffled_no_error [of s ct]
    by blast
qed

text \<open>
  Claim C8. The operations do raise an error: with three tracks loaded, shuffle mode on
  and the empty permutation (the state \<^verbatim>\<open>initializeStorage\<close> leaves when it restores
  \<^verbatim>\<open>shuffleMode = true\<close> after the files were loaded), \<^verbatim>\<open>playNext\<close> and \<^verbatim>\<open>playPrevious\<close>
  compute the cursor \<^verbatim>\<open>NaN\<close>, read \<^verbatim>\<open>undefined\<close> from the permutation and throw the
  \<^verbatim>\<open>TypeError\<close> of \<^verbatim>\<open>loadTrack(undefined)\<close>.
\<close>

theorem empty_permutation_throws:
  "tracks restored_shuffle = [sample_track 0, sample_track 1, sample_track 2] \<and>
   shuffleMode restored_shuffle \<and> shuffledOrder restored_shuffle = [] \<and>
   playNext restored_shuffle = Inl TypeError \<and>
   playPrevious 0 restored_shuffle = Inl TypeError"
  by (simp add: restored_shuffle_def sample_state_def initial_state_def playNext_def
      playPrevious_def eval_nat_numeral upt_rec)

lemma random_index_zero: "random_index draw_zero n = 0"
  by (simp add: random_index_def draw_zero.rep_eq)

subsection \<open>Concrete runs\<close>

text \<open>Three tracks, every draw \<open>0\<close>: the order is \<open>[1, 2, 0]\<close>.\<close>

theorem generateShuffledOrder_bijection_witness:
  "shuffledOrder (generateShuffledOrder zero_draws (sample_state 3 0)) = [1, 2, 0] \<and>
   length (shuffledOrder (generateShuffledOrder zero_draws (sample_state 3 0))) = 3 \<and>
   distinct (shuffledOrder (generateShuffledOrder zero_draws (sample_state 3 0))) \<and>
   set (shuffledOrder (generateShuffledOrder zero_draws (sample_state 3 0))) = {0..<3}"
proof -
  have e: "shuffledOrder (generateShuffledOrder zero_draws (sample_state 3 0)) = [1, 2, 0]"
    by (simp add: generateShuffledOrder_def sample_state_def initial_state_def zero_draws_def
        random_index_zero swap_def numeral_3_eq_3 upt_rec)
  have t: "length (tracks (sample_state 3 0)) = 3"
    by (simp add: sample_state_def)
  show ?thesis
    using generateShuffledOrder_bijection [of zero_draws "sample_state 3 0"] e t by simp
qed

lemma sample_state_simps:
  "tracks (sample_state n i) = map sample_track [0..<n]"
  "currentIndex (sample_state n i) = i"
  "shuffleMode (sample_state n i) = False"
  "shuffledOrder (sample_state n i) = []"
  "shuffledIndex (sample_state n i) = 0"
  "(sample_state n i)\<lparr>currentIndex := j\<rparr> = sample_state n j"
  by (simp_all add: sample_state_def initial_state_def)

text \<open>
  Four tracks in sequential mode: next from index \<open>3\<close> yields \<open>0\<close>, previous from \<open>0\<close>
  yields \<open>3\<close>, and four calls of either return to the start.
\<close>

theorem sequential_order_consistency_witness:
  "playNext (sample_state 4 3) = Inr (sample_state 4 0) \<and>
   playPrevious 0 (sample_state 4 0) = Inr (sample_state 4 3) \<and>
   playPrevious 5 (sample_state 4 0) = Inr (sample_state 4 0) \<and>
   playNext_times 4 (sample_state 4 3) = Inr (sample_state 4 3) \<and>
   playPrevious_times [0, 1, 2, 3] (sample_state 4 3) = Inr (sample_state 4 3)"
  using sequential_order_consistency [of "sample_state 4 3" 0 "[0, 1, 2, 3]"]
    sequential_order_consistency [of "sample_state 4 0" 0 "[]"]
    sequential_order_consistency [of "sample_state 4 0" 5 "[]"]
  by (simp add: sample_state_simps del: playPrevious_times.simps)

text \<open>
  Five seconds into track \<open>0\<close> of four, \<^verbatim>\<open>playPrevious\<close> stays on track \<open>0\<close> and does not
  move to \<open>(0 - 1 + 4) mod 4 = 3\<close>; with two tracks, two calls of which the first comes five
  seconds into the track do not return to the starting index.
\<close>

theorem previous_counterexample:
  "playPrevious 5 (sample_state 4 0) = Inr (sample_state 4 0) \<and>
   sample_state 4 0 \<noteq> sample_state 4 ((0 - 1 + 4) mod 4) \<and>
   playPrevious_times [5, 0] (sample_state 2 0) = Inr (sample_state 2 1) \<and>
   sample_state 2 1 \<noteq> sample_state 2 0"
proof -
  have a: "playPrevious 5 (sample_state 4 0) = Inr (sample_state 4 0)"
    by (simp add: playPrevious_def sample_state_simps)
  have "currentIndex (sample_state 4 0) \<noteq> currentIndex (sample_state 4 ((0 - 1 + 4) mod 4))"
    by (simp add: sample_state_simps)
  then have b: "sample_state 4 0 \<noteq> sample_state 4 ((0 - 1 + 4) mod 4)"
    by metis
  have c: "playPrevious_times [5, 0] (sample_state 2 0) = Inr (sample_state 2 1)"
    by (simp add: playPrevious_def playTrack_def loadTrack_def js_rem_def sample_state_simps)
  have "currentIndex (sample_state 2 1) \<noteq> currentIndex (sample_state 2 0)"
    by (simp add: sample_state_simps)
  then have d: "sample_state 2 1 \<noteq> sample_state 2 0"
    by metis
  from a b c d show ?thesis by simp
qed

lemma order_3: "shuffledOrder (generateShuffledOrder zero_draws ((sample_state 3 i)\<lparr>shuffleMode := b\<rparr>)) = [1, 2, 0]"
  by (simp add: generateShuffledOrder_def sample_state_simps zero_draws_def
        random_index_zero swap_def numeral_3_eq_3 upt_rec)

lemma order_5: "shuffledOrder (generateShuffledOrder zero_draws ((sample_state 5 i)\<lparr>shuffleMode := b\<rparr>)) = [1, 2, 3, 4, 0]"
  by (simp add: generateShuffledOrder_def sample_state_simps zero_draws_def
        random_index_zero swap_def eval_nat_numeral upt_rec)

text \<open>
  Five tracks, current index \<open>2\<close>, every draw \<open>0\<close>: the cursor is the position of \<open>2\<close> in
  \<open>[1, 2, 3, 4, 0]\<close>.
\<close>

theorem toggleShuffle_to_shuffled_witness:
  "shuffleMode (toggleShuffle zero_draws (sample_state 5 2)) \<and>
   shuffledOrder (toggleShuffle zero_draws (sample_state 5 2)) = [1, 2, 3, 4, 0] \<and>
   shuffledIndex (toggleShuffle zero_draws (sample_state 5 2)) = 1 \<and>
   shuffledIndex (toggleShuffle zero_draws (sample_state 5 7)) = - 1 \<and>
   toggleShuffle zero_draws initial_state = initial_state\<lparr>shuffleMode := True\<rparr>"
proof -
  have o: "shuffledOrder (toggleShuffle zero_draws (sample_state 5 i)) = [1, 2, 3, 4, 0]" for i
    using order_5 [where i = i and b = True] by (simp add: toggleShuffle_def Let_def sample_state_simps)
  show ?thesis
    using toggleShuffle_to_shuffled [of "sample_state 5 2" zero_draws]
      toggleShuffle_to_shuffled [of "sample_state 5 7" zero_draws]
      toggleShuffle_to_shuffled [of initial_state zero_draws] o
    by (simp add: sample_state_simps initial_state_def)
qed

text \<open>
  The cursor does not fall back to \<open>0\<close>: with three tracks and current index \<open>5\<close> it
  becomes \<open>-1\<close>, and with an empty track list a cursor of \<open>2\<close> stays \<open>2\<close>.
\<close>

theorem toggleShuffle_fallback_counterexample:
  "shuffledIndex (toggleShuffle zero_draws (sample_state 3 5)) = - 1 \<and>
   shuffledIndex (toggleShuffle zero_draws (initial_state\<lparr>shuffledIndex := 2\<rparr>)) = 2"
proof -
  have "shuffledIndex (toggleShuffle zero_draws (sample_state 3 5)) = - 1"
    using order_3 [where i = 5 and b = True]
    by (simp add: toggleShuffle_def Let_def sample_state_simps generateShuffledOrder_frame)
  moreover have "shuffledIndex (toggleShuffle zero_draws (initial_state\<lparr>shuffledIndex := 2\<rparr>)) = 2"
    by (simp add: toggleShuffle_def initial_state_def)
  ultimately show ?thesis by simp
qed

text \<open>Three tracks in shuffle mode: the first next plays the entry at position \<open>1\<close>.\<close>

theorem regenerate_resets_cursor_witness:
  "shuffledIndex (generateShuffledOrder zero_draws ((sample_state 3 0)\<lparr>shuffleMode := True\<rparr>)) = 0 \<and>
   shuffledOrder (generateShuffledOrder zero_draws ((sample_state 3 0)\<lparr>shuffleMode := True\<rparr>)) = [1, 2, 0] \<and>
   playNext (generateShuffledOrder zero_draws ((sample_state 3 0)\<lparr>shuffleMode := True\<rparr>)) =
     Inr ((sample_state 3 2)\<lparr>shuffleMode := True, shuffledOrder := [1, 2, 0], shuffledIndex := 1\<rparr>)"
proof -
  let ?s = "(sample_state 3 0)\<lparr>shuffleMode := True\<rparr>"
  have g: "generateShuffledOrder zero_draws ?s = ?s\<lparr>shuffledOrder := [1, 2, 0], shuffledIndex := 0\<rparr>"
    using order_3 [where i = 0 and b = True] by (simp add: generateShuffledOrder_def Let_def)
  show ?thesis
    using regenerate_resets_cursor [of zero_draws ?s] g
    by (simp add: sample_state_simps sample_state_def)
qed

text \<open>
  One track in shuffle mode: the permutation \<open>[0]\<close> has no position \<open>1\<close>, and the first
  next after the regeneration leaves the cursor at \<open>0\<close>.
\<close>

theorem regenerate_single_track_counterexample:
  "shuffledOrder (generateShuffledOrder zero_draws ((sample_state 1 0)\<lparr>shuffleMode := True\<rparr>)) = [0] \<and>
   js_nth (shuffledOrder (generateShuffledOrder zero_draws ((sample_state 1 0)\<lparr>shuffleMode := True\<rparr>))) 1 = None \<and>
   playNext (generateShuffledOrder zero_draws ((sample_state 1 0)\<lparr>shuffleMode := True\<rparr>)) =
     Inr ((sample_state 1 0)\<lparr>shuffleMode := True, shuffledOrder := [0], shuffledIndex := 0\<rparr>)"
  by (simp add: generateShuffledOrder_def playNext_def playTrack_def loadTrack_def js_rem_def
      js_nth_def sample_state_def initial_state_def Let_def)

section \<open>Properties of the persistent store\<close>

lemma run_requests_append:
  "run_requests fails k (xs @ ys) db =
     (case run_requests fails k xs db of
        None \<Rightarrow> None
      | Some d \<Rightarrow> run_requests fails (k + length xs) ys d)"
  by (induction xs arbitrary: k db) (simp_all split: option.splits)

lemma run_requests_ok:
  "(\<forall>j < length rs. \<not> fails (k + j)) \<Longrightarrow> run_requests fails k rs db = Some (fold (\<lambda>r. r) rs db)"
proof (induction rs arbitrary: k db)
  case Nil
  then show ?case by simp
next
  case (Cons r rs)
  from Cons.prems have "\<not> fails k" by fastforce
  moreover have "\<forall>j < length rs. \<not> fails (Suc k + j)"
    using Cons.prems by fastforce
  ultimately show ?case
    using Cons.IH [of "Suc k" "r db"] by simp
qed

lemma run_requests_fail:
  "\<exists>j < length rs. fails (k + j) \<Longrightarrow> run_requests fails k rs db = None"
proof (induction rs arbitrary: k db)
  case Nil
  then show ?case by simp
next
  case (Cons r rs)
  show ?case
  proof (cases "fails k")
    case True
    then show ?thesis by simp
  next
    case False
    from Cons.prems obtain j where j: "j < Suc (length rs)" "fails (k + j)" by auto
    with False have "j \<noteq> 0" by (cases j) auto
    then obtain m where "j = Suc m" by (cases j) auto
    with j have "\<exists>m < length rs. fails (Suc k + m)" by auto
    from Cons.IH [OF this] False show ?thesis by simp
  qed
qed

lemma blob_tracks_all:
  "list_all (\<lambda>t. file_isBlob (track_file t)) ts \<Longrightarrow> blob_tracks ts = ts"
  by (simp add: blob_tracks_def takeWhile_eq_all_conv list_all_iff)

lemma track_loop_eq:
  "track_loop pid i ts tot q =
     (list_all (\<lambda>t. file_isBlob (track_file t)) ts,
      tot + sum_list (map (\<lambda>t. blob_size (track_file t)) (blob_tracks ts)),
      q @ map (\<lambda>(j, t). trackStore_add (trackData pid j t)) (enumerate i (blob_tracks ts)))"
  by (induction ts arbitrary: i tot q) (simp_all add: Let_def blob_tracks_def)

lemma fold_trackStore_add:
  "fold (\<lambda>r. r) (map (\<lambda>(j, t). trackStore_add (trackData pid j t)) (enumerate i ts)) db =
     db\<lparr>db_tracks := db_tracks db @ stored_tracks pid (db_trackKey db) i ts,
        db_trackKey := db_trackKey db + length ts\<rparr>"
  by (induction ts arbitrary: i db) (simp_all add: trackStore_add_def)

lemma put_playlist_last:
  "\<forall>q \<in> set ps. pl_id q \<noteq> pl_id p \<Longrightarrow> pl_id p0 = pl_id p \<Longrightarrow>
   put_playlist p (ps @ [p0]) = ps @ [p]"
  by (induction ps) simp_all

lemma db_wf_fresh_playlist:
  "db_wf db \<Longrightarrow> q \<in> set (db_playlists db) \<Longrightarrow> pl_id q \<noteq> Some (db_playlistKey db)"
  by (auto simp: db_wf_def list_all_iff split: option.splits)

lemma db_wf_fresh_track:
  "db_wf db \<Longrightarrow> r \<in> set (db_tracks db) \<Longrightarrow> rec_playlistId r \<noteq> db_playlistKey db"
  by (auto simp: db_wf_def list_all_iff)

lemma savePlaylist_eq:
  fixes db :: "'v database"
  assumes "db_wf db" and blobs: "list_all (\<lambda>t. file_isBlob (track_file t)) trks"
  shows "savePlaylist fails now name trks db =
    (if fails 0 then (Rejected RequestError, db)
     else (Resolved (db_playlistKey db),
           if \<exists>j < length trks + 1. fails (1 + j) then db else fully_saved now name trks db))"
proof (cases "fails 0")
  case True
  then show ?thesis by (simp add: savePlaylist_def)
next
  case f0: False
  let ?pid = "db_playlistKey db"
  let ?p0 = "\<lparr>pl_name = name, pl_trackCount = length trks, pl_createdAt = now,
             pl_totalSize = 0, pl_id = None\<rparr>"
  let ?total = "sum_list (map (\<lambda>t. blob_size (track_file t)) trks)"
  let ?p1 = "?p0\<lparr>pl_id := Some ?pid, pl_totalSize := ?total\<rparr>"
  let ?adds = "map (\<lambda>(j, t). trackStore_add (trackData ?pid j t)) (enumerate 0 trks) :: 'v request list"
  let ?queue = "?adds @ [playlistStore_put ?p1]"
  let ?db1 = "playlistStore_add ?p0 db"
  have loop: "track_loop ?pid 0 trks 0 [] = (True, ?total, ?adds)"
    using blobs by (simp add: track_loop_eq blob_tracks_all)
  have len: "length ?queue = length trks + 1" by simp
  have save: "savePlaylist fails now name trks db =
      (Resolved ?pid, case run_requests fails 1 ?queue ?db1 of None \<Rightarrow> db | Some db2 \<Rightarrow> db2)"
    using f0 loop by (simp add: savePlaylist_def Let_def)
  show ?thesis
  proof (cases "\<exists>j < length trks + 1. fails (1 + j)")
    case True
    then have "\<exists>j < length ?queue. fails (1 + j)" by simp
    then have "run_requests fails 1 ?queue ?db1 = None" by (rule run_requests_fail)
    with save have "savePlaylist fails now name trks db = (Resolved ?pid, db)"
      by simp
    then show ?thesis
      using f0 True by (simp only: if_False if_True)
  next
    case False
    then have "\<forall>j < length ?queue. \<not> fails (1 + j)" by simp
    then have run: "run_requests fails 1 ?queue ?db1 = Some (fold (\<lambda>r. r) ?queue ?db1)"
      by (rule run_requests_ok)
    have fresh: "\<forall>q \<in> set (db_playlists db). pl_id q \<noteq> pl_id ?p1"
      using db_wf_fresh_playlist [OF assms(1)] by simp
    have "put_playlist ?p1 (db_playlists db @ [?p0\<lparr>pl_id := Some ?pid\<rparr>]) = db_playlists db @ [?p1]"
      using fresh by (rule put_playlist_last) simp
    then have "fold (\<lambda>r. r) ?queue ?db1 = fully_saved now name trks db"
      by (simp add: fold_trackStore_add playlistStore_put_def playlistStore_add_def fully_saved_def)
    with run save have "savePlaylist fails now name trks db =
        (Resolved ?pid, fully_saved now name trks db)"
      by simp
    then show ?thesis
      using f0 False by (simp only: if_False)
  qed
qed

text \<open>
  When the file of some track is not a \<^verbatim>\<open>Blob\<close>, the promise is never resolved, and unless
  a request fails the metadata and the tracks before that one are committed.
\<close>

lemma savePlaylist_suspended:
  fixes db :: "'v database"
  assumes "\<not> list_all (\<lambda>t. file_isBlob (track_file t)) trks"
  shows "savePlaylist fails now name trks db =
    (if fails 0 \<or> (\<exists>j < length (blob_tracks trks). fails (1 + j))
     then (Rejected RequestError, db)
     else (Pending, partly_saved now name trks db))"
proof (cases "fails 0")
  case True
  then show ?thesis by (simp add: savePlaylist_def)
next
  case f0: False
  let ?pid = "db_playlistKey db"
  let ?p0 = "\<lparr>pl_name = name, pl_trackCount = length trks, pl_createdAt = now,
             pl_totalSize = 0, pl_id = None\<rparr>"
  let ?total = "sum_list (map (\<lambda>t. blob_size (track_file t)) (blob_tracks trks))"
  let ?adds = "map (\<lambda>(j, t). trackStore_add (trackData ?pid j t)) (enumerate 0 (blob_tracks trks))
      :: 'v request list"
  let ?db1 = "playlistStore_add ?p0 db"
  have loop: "track_loop ?pid 0 trks 0 [] = (False, ?total, ?adds)"
    using assms by (simp add: track_loop_eq)
  have save: "savePlaylist fails now name trks db =
      (case run_requests fails 1 ?adds ?db1 of
         None \<Rightarrow> (Rejected RequestError, db)
       | Some db2 \<Rightarrow> (Pending, db2))"
    using f0 loop by (simp add: savePlaylist_def Let_def)
  show ?thesis
  proof (cases "\<exists>j < length (blob_tracks trks). fails (1 + j)")
    case True
    then have "\<exists>j < length ?adds. fails (1 + j)" by simp
    then have "run_requests fails 1 ?adds ?db1 = None" by (rule run_requests_fail)
    with save have "savePlaylist fails now name trks db = (Rejected RequestError, db)"
      by simp
    then show ?thesis
      using True by (simp only: simp_thms if_True)
  next
    case False
    then have "\<forall>j < length ?adds. \<not> fails (1 + j)" by simp
    then have run: "run_requests fails 1 ?adds ?db1 = Some (fold (\<lambda>r. r) ?adds ?db1)"
      by (rule run_requests_ok)
    have "fold (\<lambda>r. r) ?adds ?db1 = partly_saved now name trks db"
      by (simp add: fold_trackStore_add playlistStore_add_def partly_saved_def)
    with run save have "savePlaylist fails now name trks db =
        (Pending, partly_saved now name trks db)"
      by simp
    then show ?thesis
      using f0 False by (simp only: simp_thms if_False)
  qed
qed

lemma stored_tracks_playlistId:
  "r \<in> set (stored_tracks pid key i ts) \<Longrightarrow> rec_playlistId r = pid"
  by (induction ts arbitrary: key i) (auto simp: trackData_def)

lemma filter_stored_tracks_same:
  "filter (\<lambda>r. rec_playlistId r = pid) (stored_tracks pid key i ts) = stored_tracks pid key i ts"
  by (rule filter_True) (simp add: stored_tracks_playlistId)

lemma filter_stored_tracks_other:
  "k \<noteq> pid \<Longrightarrow> filter (\<lambda>r. rec_playlistId r = k) (stored_tracks pid key i ts) = []"
  by (auto simp: filter_empty_conv dest: stored_tracks_playlistId)

lemma length_stored_tracks: "length (stored_tracks pid key i ts) = length ts"
  by (induction ts arbitrary: key i) simp_all

lemma stored_tracks_order: "map rec_order (stored_tracks pid key i ts) = [i..<i + length ts]"
  by (induction ts arbitrary: key i) (simp_all add: trackData_def upt_rec)

lemma stored_tracks_ids:
  "map rec_id (stored_tracks pid key i ts) = map Some [key..<key + length ts]"
  by (induction ts arbitrary: key i) (simp_all add: upt_rec)

lemma stored_tracks_size:
  "map rec_size (stored_tracks pid key i ts) = map (\<lambda>t. blob_size (track_file t)) ts"
  by (induction ts arbitrary: key i) (simp_all add: trackData_def)

lemma stored_tracks_name:
  "map rec_name (stored_tracks pid key i ts) = map track_name ts"
  by (induction ts arbitrary: key i) (simp_all add: trackData_def)

lemma stored_tracks_blob:
  "map rec_audioBlob (stored_tracks pid key i ts) = map track_file ts"
  by (induction ts arbitrary: key i) (simp_all add: trackData_def)

lemma index_getAll_fully_saved_new:
  assumes "db_wf db"
  shows "index_getAll (db_playlistKey db) (fully_saved now name trks db) =
    stored_tracks (db_playlistKey db) (db_trackKey db) 0 trks"
proof -
  have "filter (\<lambda>r. rec_playlistId r = db_playlistKey db) (db_tracks db) = []"
    using db_wf_fresh_track [OF assms] by (simp add: filter_empty_conv)
  then show ?thesis
    by (simp add: index_getAll_def fully_saved_def filter_stored_tracks_same)
qed

lemma index_getAll_fully_saved_old:
  "k \<noteq> db_playlistKey db \<Longrightarrow> index_getAll k (fully_saved now name trks db) = index_getAll k db"
  by (simp add: index_getAll_def fully_saved_def filter_stored_tracks_other)

lemma db_wf_appended:
  assumes "db_wf db" and id: "pl_id p = Some (db_playlistKey db)"
  shows "db_wf (db\<lparr>db_playlists := db_playlists db @ [p],
      db_playlistKey := db_playlistKey db + 1,
      db_tracks := db_tracks db @ stored_tracks (db_playlistKey db) (db_trackKey db) 0 ts,
      db_trackKey := db_trackKey db + length ts\<rparr>)"
proof -
  let ?db' = "db\<lparr>db_playlists := db_playlists db @ [p],
      db_playlistKey := db_playlistKey db + 1,
      db_tracks := db_tracks db @ stored_tracks (db_playlistKey db) (db_trackKey db) 0 ts,
      db_trackKey := db_trackKey db + length ts\<rparr>"
  have pl: "db_playlists ?db' = db_playlists db @ [p]"
    and pk: "db_playlistKey ?db' = db_playlistKey db + 1"
    and tr: "db_tracks ?db' = db_tracks db @ stored_tracks (db_playlistKey db) (db_trackKey db) 0 ts"
    and tk: "db_trackKey ?db' = db_trackKey db + length ts"
    and pr: "db_preferences ?db' = db_preferences db"
    by simp_all
  have old_p: "\<forall>p \<in> set (db_playlists db). \<exists>k. pl_id p = Some k \<and> k < db_playlistKey db"
    using assms(1) by (auto simp: db_wf_def list_all_iff split: option.splits)
  have old_t: "\<forall>r \<in> set (db_tracks db).
      (\<exists>k. rec_id r = Some k \<and> k < db_trackKey db) \<and> rec_playlistId r < db_playlistKey db"
    using assms(1) by (auto simp: db_wf_def list_all_iff split: option.splits)
  have new_t: "\<forall>r \<in> set (stored_tracks (db_playlistKey db) (db_trackKey db) 0 ts).
      (\<exists>k. rec_id r = Some k \<and> db_trackKey db \<le> k \<and> k < db_trackKey db + length ts)
      \<and> rec_playlistId r = db_playlistKey db"
  proof
    fix r
    assume r: "r \<in> set (stored_tracks (db_playlistKey db) (db_trackKey db) 0 ts)"
    then have "rec_id r \<in> set (map rec_id (stored_tracks (db_playlistKey db) (db_trackKey db) 0 ts))"
      by simp
    then have "rec_id r \<in> Some ` {db_trackKey db..<db_trackKey db + length ts}"
      by (simp add: stored_tracks_ids)
    then show "(\<exists>k. rec_id r = Some k \<and> db_trackKey db \<le> k \<and> k < db_trackKey db + length ts)
        \<and> rec_playlistId r = db_playlistKey db"
      using stored_tracks_playlistId [OF r] by auto
  qed
  have d1: "distinct (map pl_id (db_playlists ?db'))"
    using assms(1) old_p id by (auto simp: pl db_wf_def)
  have a1: "list_all (\<lambda>p. case pl_id p of None \<Rightarrow> False | Some k \<Rightarrow> k < db_playlistKey ?db')
      (db_playlists ?db')"
    using old_p id by (auto simp: pl pk list_all_iff)
  have "distinct (map rec_id (stored_tracks (db_playlistKey db) (db_trackKey db) 0 ts))"
    by (simp add: stored_tracks_ids distinct_map)
  then have d2: "distinct (map rec_id (db_tracks ?db'))"
    using assms(1) old_t new_t by (fastforce simp: tr db_wf_def)
  have a2: "list_all (\<lambda>r. (case rec_id r of None \<Rightarrow> False | Some k \<Rightarrow> k < db_trackKey ?db') \<and>
      rec_playlistId r < db_playlistKey ?db') (db_tracks ?db')"
    using old_t new_t by (fastforce simp: tr tk pk list_all_iff)
  have d3: "distinct (map pref_key (db_preferences ?db'))"
    using assms(1) by (simp add: pr db_wf_def)
  from d1 a1 d2 a2 d3 show ?thesis
    unfolding db_wf_def by blast
qed

lemma db_wf_fully_saved:
  assumes "db_wf db"
  shows "db_wf (fully_saved now name trks db)"
  unfolding fully_saved_def using assms by (rule db_wf_appended) simp

lemma db_wf_partly_saved:
  assumes "db_wf db"
  shows "db_wf (partly_saved now name trks db)"
  unfolding partly_saved_def using assms by (rule db_wf_appended) simp

lemma db_wf_savePlaylist:
  assumes "db_wf db"
  shows "db_wf (snd (savePlaylist fails now name trks db))"
proof (cases "list_all (\<lambda>t. file_isBlob (track_file t)) trks")
  case True
  with assms show ?thesis
    by (simp add: savePlaylist_eq db_wf_fully_saved)
next
  case False
  with assms show ?thesis
    by (simp add: savePlaylist_suspended db_wf_partly_saved)
qed

lemma aggregate_ok_fully_saved:
  assumes "db_wf db" "aggregate_ok db"
  shows "aggregate_ok (fully_saved now name trks db)"
proof -
  let ?db' = "fully_saved now name trks db"
  have new: "index_getAll (db_playlistKey db) ?db' =
      stored_tracks (db_playlistKey db) (db_trackKey db) 0 trks"
    using assms(1) by (rule index_getAll_fully_saved_new)
  have old: "pl_totalSize p = sum_list (map rec_size (index_getAll k ?db')) \<and>
      pl_trackCount p = length (index_getAll k ?db')"
    if "p \<in> set (db_playlists db)" "pl_id p = Some k" for p k
  proof -
    from that assms(1) have "k \<noteq> db_playlistKey db"
      using db_wf_fresh_playlist by metis
    then have "index_getAll k ?db' = index_getAll k db"
      by (rule index_getAll_fully_saved_old)
    moreover have "pl_totalSize p = sum_list (map rec_size (index_getAll k db)) \<and>
        pl_trackCount p = length (index_getAll k db)"
      using assms(2) that by (auto simp: aggregate_ok_def list_all_iff split: option.splits)
    ultimately show ?thesis by simp
  qed
  have none: "pl_id p \<noteq> None" if "p \<in> set (db_playlists db)" for p
    using assms(2) that by (auto simp: aggregate_ok_def list_all_iff split: option.splits)
  show ?thesis
    unfolding aggregate_ok_def list_all_iff
  proof
    fix p
    assume "p \<in> set (db_playlists ?db')"
    then consider "p \<in> set (db_playlists db)"
      | "p = \<lparr>pl_name = name, pl_trackCount = length trks, pl_createdAt = now,
          pl_totalSize = sum_list (map (\<lambda>t. blob_size (track_file t)) trks),
          pl_id = Some (db_playlistKey db)\<rparr>"
      by (auto simp: fully_saved_def)
    then show "case pl_id p of None \<Rightarrow> False
        | Some k \<Rightarrow> pl_totalSize p = sum_list (map rec_size (index_getAll k ?db')) \<and>
            pl_trackCount p = length (index_getAll k ?db')"
    proof cases
      case 1
      with none [OF 1] obtain k where "pl_id p = Some k" by auto
      with old [OF 1 this] show ?thesis by simp
    next
      case 2
      then show ?thesis
        by (simp add: new stored_tracks_size length_stored_tracks)
    qed
  qed
qed

lemma aggregate_ok_savePlaylist:
  "db_wf db \<Longrightarrow> aggregate_ok db \<Longrightarrow> list_all (\<lambda>t. file_isBlob (track_file t)) trks \<Longrightarrow>
   aggregate_ok (snd (savePlaylist fails now name trks db))"
  by (simp add: savePlaylist_eq aggregate_ok_fully_saved)

lemma fold_cursor_deletes:
  "fold (\<lambda>r. r) (concat (map (\<lambda>r. [cursor_delete r, cursor_move]) rs)) db =
     db\<lparr>db_tracks := filter (\<lambda>x. rec_id x \<notin> rec_id ` set rs) (db_tracks db)\<rparr>"
proof (induction rs arbitrary: db)
  case Nil
  then show ?case by simp
next
  case (Cons r rs)
  have "filter (\<lambda>x. rec_id x \<notin> rec_id ` set rs) (filter (\<lambda>x. rec_id x \<noteq> rec_id r) (db_tracks db))
      = filter (\<lambda>x. rec_id x \<notin> rec_id ` set (r # rs)) (db_tracks db)"
    by (auto intro: filter_cong)
  then show ?case
    using Cons.IH [of "cursor_delete r db"] by (simp add: cursor_delete_def cursor_move_def)
qed

lemma deletePlaylist_eq:
  "deletePlaylist fails pid db =
     (if \<exists>j < 2 + 2 * length (index_getAll pid db). fails j then (Rejected RequestError, db)
      else (Resolved (), fully_deleted pid db))"
proof -
  let ?queue = "[playlistStore_delete pid, cursor_move] @
      concat (map (\<lambda>r. [cursor_delete r, cursor_move]) (index_getAll pid db))"
  have len: "length ?queue = 2 + 2 * length (index_getAll pid db)"
    by (simp add: length_concat comp_def sum_list_triv)
  show ?thesis
  proof (cases "\<exists>j < 2 + 2 * length (index_getAll pid db). fails j")
    case True
    then have "\<exists>j < length ?queue. fails (0 + j)" unfolding len by simp
    then have "run_requests fails 0 ?queue db = None" by (rule run_requests_fail)
    then have "deletePlaylist fails pid db = (Rejected RequestError, db)"
      by (simp add: deletePlaylist_def)
    with True show ?thesis by (simp only: if_True)
  next
    case False
    then have "\<forall>j < length ?queue. \<not> fails (0 + j)" unfolding len by simp
    then have "run_requests fails 0 ?queue db = Some (fold (\<lambda>r. r) ?queue db)"
      by (rule run_requests_ok)
    moreover have "fold (\<lambda>r. r) ?queue db = fully_deleted pid db"
      by (simp add: fold_cursor_deletes playlistStore_delete_def cursor_move_def fully_deleted_def
          index_getAll_def)
    ultimately have "deletePlaylist fails pid db = (Resolved (), fully_deleted pid db)"
      by (simp add: deletePlaylist_def)
    with False show ?thesis by (simp only: if_False)
  qed
qed

lemma index_getAll_fully_deleted: "index_getAll pid (fully_deleted pid db) = []"
  by (auto simp: index_getAll_def fully_deleted_def filter_empty_conv)

lemma playlistStore_get_fully_deleted: "playlistStore_get pid (fully_deleted pid db) = None"
  by (simp add: playlistStore_get_def fully_deleted_def find_None_iff)

lemma tracks_fully_deleted:
  assumes "db_wf db"
  shows "db_tracks (fully_deleted pid db) = filter (\<lambda>r. rec_playlistId r \<noteq> pid) (db_tracks db)"
proof -
  have d: "distinct (map rec_id (db_tracks db))"
    using assms by (simp add: db_wf_def)
  have "rec_id x \<notin> rec_id ` set (index_getAll pid db) \<longleftrightarrow> rec_playlistId x \<noteq> pid"
    if "x \<in> set (db_tracks db)" for x
  proof
    assume "rec_id x \<notin> rec_id ` set (index_getAll pid db)"
    with that show "rec_playlistId x \<noteq> pid"
      by (auto simp: index_getAll_def)
  next
    assume ne: "rec_playlistId x \<noteq> pid"
    show "rec_id x \<notin> rec_id ` set (index_getAll pid db)"
    proof
      assume "rec_id x \<in> rec_id ` set (index_getAll pid db)"
      then obtain y where y: "y \<in> set (db_tracks db)" "rec_playlistId y = pid" "rec_id y = rec_id x"
        by (auto simp: index_getAll_def)
      from d that y(1,3) have "x = y"
        by (metis distinct_map inj_on_def)
      with ne y(2) show False by simp
    qed
  qed
  then have "filter (\<lambda>x. rec_id x \<notin> rec_id ` set (index_getAll pid db)) (db_tracks db)
      = filter (\<lambda>r. rec_playlistId r \<noteq> pid) (db_tracks db)"
    by (intro filter_cong refl) blast
  then show ?thesis
    by (simp add: fully_deleted_def)
qed

lemma index_getAll_fully_deleted_other:
  assumes "db_wf db" "k \<noteq> pid"
  shows "index_getAll k (fully_deleted pid db) = index_getAll k db"
proof -
  have "filter (\<lambda>r. rec_playlistId r = k) (filter (\<lambda>r. rec_playlistId r \<noteq> pid) (db_tracks db))
      = filter (\<lambda>r. rec_playlistId r = k) (db_tracks db)"
    using assms(2) by (auto intro: filter_cong)
  then show ?thesis
    by (simp add: index_getAll_def tracks_fully_deleted [OF assms(1)])
qed

lemma db_wf_fully_deleted:
  assumes "db_wf db"
  shows "db_wf (fully_deleted pid db)"
proof -
  let ?db' = "fully_deleted pid db"
  have pl: "db_playlists ?db' = filter (\<lambda>p. pl_id p \<noteq> Some pid) (db_playlists db)"
    and pk: "db_playlistKey ?db' = db_playlistKey db"
    and tk: "db_trackKey ?db' = db_trackKey db"
    and pr: "db_preferences ?db' = db_preferences db"
    by (simp_all add: fully_deleted_def)
  have tr: "db_tracks ?db' = filter (\<lambda>r. rec_playlistId r \<noteq> pid) (db_tracks db)"
    using assms by (rule tracks_fully_deleted)
  have d1: "distinct (map pl_id (db_playlists ?db'))"
    using assms unfolding pl db_wf_def by (simp add: distinct_map_filter)
  have a1: "list_all (\<lambda>p. case pl_id p of None \<Rightarrow> False | Some k \<Rightarrow> k < db_playlistKey ?db')
      (db_playlists ?db')"
    using assms unfolding pl pk db_wf_def by (simp add: list_all_iff)
  have d2: "distinct (map rec_id (db_tracks ?db'))"
    using assms unfolding tr db_wf_def by (simp add: distinct_map_filter)
  have a2: "list_all (\<lambda>r. (case rec_id r of None \<Rightarrow> False | Some k \<Rightarrow> k < db_trackKey ?db') \<and>
      rec_playlistId r < db_playlistKey ?db') (db_tracks ?db')"
    using assms unfolding tr tk pk db_wf_def by (simp add: list_all_iff)
  have d3: "distinct (map pref_key (db_preferences ?db'))"
    using assms unfolding pr db_wf_def by simp
  from d1 a1 d2 a2 d3 show ?thesis
    unfolding db_wf_def by blast
qed

lemma aggregate_ok_fully_deleted:
  assumes "db_wf db" "aggregate_ok db"
  shows "aggregate_ok (fully_deleted pid db)"
  unfolding aggregate_ok_def list_all_iff
proof
  fix p
  assume "p \<in> set (db_playlists (fully_deleted pid db))"
  then have p: "p \<in> set (db_playlists db)" and ne: "pl_id p \<noteq> Some pid"
    by (simp_all add: fully_deleted_def)
  from assms(2) p obtain k where k: "pl_id p = Some k"
    and agg: "pl_totalSize p = sum_list (map rec_size (index_getAll k db))"
      "pl_trackCount p = length (index_getAll k db)"
    by (auto simp: aggregate_ok_def list_all_iff split: option.splits)
  from k ne have "k \<noteq> pid" by simp
  with assms(1) have "index_getAll k (fully_deleted pid db) = index_getAll k db"
    by (rule index_getAll_fully_deleted_other)
  with k agg show "case pl_id p of None \<Rightarrow> False
      | Some k \<Rightarrow> pl_totalSize p = sum_list (map rec_size (index_getAll k (fully_deleted pid db))) \<and>
          pl_trackCount p = length (index_getAll k (fully_deleted pid db))"
    by simp
qed

lemma db_wf_deletePlaylist:
  "db_wf db \<Longrightarrow> db_wf (snd (deletePlaylist fails pid db))"
  by (simp add: deletePlaylist_eq db_wf_fully_deleted)

lemma aggregate_ok_deletePlaylist:
  "db_wf db \<Longrightarrow> aggregate_ok db \<Longrightarrow> aggregate_ok (snd (deletePlaylist fails pid db))"
  by (simp add: deletePlaylist_eq aggregate_ok_fully_deleted)

lemma fold_preferences_put:
  "fold (\<lambda>r. r) (map (\<lambda>e. preferences_put (f e)) es) db =
     db\<lparr>db_preferences := fold (\<lambda>e. put_preference (f e)) es (db_preferences db)\<rparr>"
  by (induction es arbitrary: db) (simp_all add: preferences_put_def)

lemma savePreferences_queue:
  "map (\<lambda>(k, (key, value)).
          preferences_put \<lparr>pref_key = key, pref_value = value, pref_updatedAt = now k\<rparr>) es
   = map (\<lambda>e. preferences_put (entry_put now e)) es"
  by (rule map_cong) auto

lemma savePreferences_eq:
  "savePreferences fails now entries db =
     (if \<exists>j < length entries. fails j then (Rejected RequestError, db)
      else (Resolved (),
            db\<lparr>db_preferences :=
                 fold (\<lambda>e. put_preference (entry_put now e)) (enumerate 0 entries)
                   (db_preferences db)\<rparr>))"
proof -
  let ?queue = "map (\<lambda>e. preferences_put (entry_put now e)) (enumerate 0 entries)"
  have sp: "savePreferences fails now entries db =
      (case run_requests fails 0 ?queue db of
         None \<Rightarrow> (Rejected RequestError, db) | Some db' \<Rightarrow> (Resolved (), db'))"
    by (simp add: savePreferences_def savePreferences_queue)
  have len: "length ?queue = length entries" by simp
  show ?thesis
  proof (cases "\<exists>j < length entries. fails j")
    case True
    then have "\<exists>j < length ?queue. fails (0 + j)" unfolding len by simp
    then have "run_requests fails 0 ?queue db = None" by (rule run_requests_fail)
    with sp have "savePreferences fails now entries db = (Rejected RequestError, db)"
      by simp
    with True show ?thesis by (simp only: if_True)
  next
    case False
    then have "\<forall>j < length ?queue. \<not> fails (0 + j)" unfolding len by simp
    then have "run_requests fails 0 ?queue db = Some (fold (\<lambda>r. r) ?queue db)"
      by (rule run_requests_ok)
    with sp have "savePreferences fails now entries db = (Resolved (), fold (\<lambda>r. r) ?queue db)"
      by simp
    with False show ?thesis by (simp only: if_False fold_preferences_put)
  qed
qed

lemma map_add_singleton: "m(k \<mapsto> v) ++ n = m ++ ([k \<mapsto> v] ++ n)"
  by (rule ext) (simp add: map_add_def split: option.splits)

lemma map_of_rev_distinct:
  assumes "distinct (map fst xs)"
  shows "map_of (rev xs) = map_of xs"
proof -
  have "distinct (map fst (rev xs))"
    using assms by (simp add: rev_map [symmetric])
  moreover have "set (rev xs) = set xs" by simp
  ultimately show ?thesis
    using assms by (simp only: map_of_inject_set)
qed

lemma foldl_merge:
  "foldl assign_property m rs =
     m ++ map_of (rev (map key_value (filter (\<lambda>r. pref_key r \<noteq> ''__proto__'') rs)))"
proof (induction rs arbitrary: m)
  case Nil
  then show ?case by simp
next
  case (Cons r rs)
  let ?own = "\<lambda>r :: 'a preference. pref_key r \<noteq> ''__proto__''"
  show ?case
  proof (cases "pref_key r = ''__proto__''")
    case True
    then have "foldl assign_property m (r # rs) = foldl assign_property m rs"
      by (simp add: assign_property_def)
    also have "\<dots> = m ++ map_of (rev (map key_value (filter ?own rs)))"
      by (rule Cons.IH)
    also have "filter ?own rs = filter ?own (r # rs)"
      using True by simp
    finally show ?thesis .
  next
    case False
    then have "foldl assign_property m (r # rs) =
        foldl assign_property (m(pref_key r \<mapsto> pref_value r)) rs"
      by (simp add: assign_property_def)
    also have "\<dots> = m(pref_key r \<mapsto> pref_value r) ++ map_of (rev (map key_value (filter ?own rs)))"
      by (rule Cons.IH)
    also have "\<dots> = m ++ ([pref_key r \<mapsto> pref_value r] ++ map_of (rev (map key_value (filter ?own rs))))"
      by (rule map_add_singleton)
    also have "[pref_key r \<mapsto> pref_value r] ++ map_of (rev (map key_value (filter ?own rs)))
        = map_of (rev (map key_value (r # filter ?own rs)))"
      by (simp only: list.map rev.simps map_of_append map_of.simps fst_conv snd_conv)
    also have "r # filter ?own rs = filter ?own (r # rs)"
      using False by simp
    finally show ?thesis .
  qed
qed

lemma merge_preferences_map_of:
  assumes "distinct (map pref_key rs)"
  shows "merge_preferences rs =
    map_of (map key_value (filter (\<lambda>r. pref_key r \<noteq> ''__proto__'') rs))"
proof -
  let ?own = "filter (\<lambda>r. pref_key r \<noteq> ''__proto__'') rs"
  have "map fst (map key_value ?own) = map pref_key ?own"
    by (simp add: comp_def)
  moreover have "distinct (map pref_key ?own)"
    using assms by (rule distinct_map_filter)
  ultimately have "distinct (map fst (map key_value ?own))"
    by (simp only:)
  then have "map_of (rev (map key_value ?own)) = map_of (map key_value ?own)"
    by (rule map_of_rev_distinct)
  then show ?thesis
    by (simp add: merge_preferences_def foldl_merge)
qed

lemma keys_put_preference:
  "set (map pref_key (put_preference p rs)) = insert (pref_key p) (set (map pref_key rs))"
  by (induction rs) auto

lemma distinct_put_preference:
  "distinct (map pref_key rs) \<Longrightarrow> distinct (map pref_key (put_preference p rs))"
proof (induction rs)
  case Nil
  then show ?case by simp
next
  case (Cons q rs)
  then show ?case
    using keys_put_preference [of p rs] by auto
qed

lemma map_of_put_preference:
  "pref_key p \<noteq> ''__proto__'' \<Longrightarrow>
   map_of (map key_value (filter (\<lambda>r. pref_key r \<noteq> ''__proto__'') (put_preference p rs))) =
     (map_of (map key_value (filter (\<lambda>r. pref_key r \<noteq> ''__proto__'') rs)))
       (pref_key p \<mapsto> pref_value p)"
  by (induction rs) (auto simp: fun_eq_iff)

lemma filter_put_preference_proto:
  "pref_key p = ''__proto__'' \<Longrightarrow>
   filter (\<lambda>r. pref_key r \<noteq> ''__proto__'') (put_preference p rs) =
     filter (\<lambda>r. pref_key r \<noteq> ''__proto__'') rs"
  by (induction rs) auto

lemma merge_put_preference:
  "distinct (map pref_key rs) \<Longrightarrow>
   merge_preferences (put_preference p rs) = assign_property (merge_preferences rs) p"
  by (cases "pref_key p = ''__proto__''")
    (simp_all add: merge_preferences_map_of distinct_put_preference map_of_put_preference
      filter_put_preference_proto assign_property_def)

lemma distinct_fold_put_entries:
  "distinct (map pref_key rs) \<Longrightarrow>
   distinct (map pref_key (fold (\<lambda>e. put_preference (entry_put now e)) (enumerate i entries) rs))"
proof (induction entries arbitrary: i rs)
  case Nil
  then show ?case by simp
next
  case (Cons e entries)
  obtain key "value" where e: "e = (key, value)" by (cases e)
  let ?p = "\<lparr>pref_key = key, pref_value = value, pref_updatedAt = now i\<rparr>"
  have "distinct (map pref_key (put_preference ?p rs))"
    using Cons.prems by (rule distinct_put_preference)
  then have "distinct (map pref_key (fold (\<lambda>e. put_preference (entry_put now e))
      (enumerate (Suc i) entries) (put_preference ?p rs)))"
    by (rule Cons.IH)
  then show ?case by (simp add: e)
qed

lemma fold_put_entries:
  assumes "distinct (map pref_key rs)" and "''__proto__'' \<notin> fst ` set entries"
  shows "merge_preferences (fold (\<lambda>e. put_preference (entry_put now e)) (enumerate i entries) rs)
      = merge_preferences rs ++ map_of (rev entries)"
  using assms
proof (induction entries arbitrary: i rs)
  case Nil
  then show ?case by simp
next
  case (Cons e entries)
  obtain key "value" where e: "e = (key, value)" by (cases e)
  let ?p = "\<lparr>pref_key = key, pref_value = value, pref_updatedAt = now i\<rparr>"
  have key: "key \<noteq> ''__proto__''" and rest: "''__proto__'' \<notin> fst ` set entries"
    using Cons.prems(2) e by auto
  have d: "distinct (map pref_key (put_preference ?p rs))"
    using Cons.prems(1) by (rule distinct_put_preference)
  have m: "merge_preferences (put_preference ?p rs) = (merge_preferences rs)(key \<mapsto> value)"
    using merge_put_preference [OF Cons.prems(1), of ?p] key by (simp add: assign_property_def)
  have "(merge_preferences rs)(key \<mapsto> value) ++ map_of (rev entries)
      = merge_preferences rs ++ ([key \<mapsto> value] ++ map_of (rev entries))"
    by (rule map_add_singleton)
  also have "[key \<mapsto> value] ++ map_of (rev entries) = map_of (rev (e # entries))"
    by (simp only: e rev.simps map_of_append map_of.simps fst_conv snd_conv)
  finally have eq: "(merge_preferences rs)(key \<mapsto> value) ++ map_of (rev entries)
      = merge_preferences rs ++ map_of (rev (e # entries))" .
  let ?F = "\<lambda>e. put_preference (entry_put now e)"
  have step: "fold ?F (enumerate i (e # entries)) rs
      = fold ?F (enumerate (Suc i) entries) (put_preference ?p rs)"
    by (simp add: e)
  have ih: "merge_preferences (fold ?F (enumerate (Suc i) entries) (put_preference ?p rs))
      = merge_preferences (put_preference ?p rs) ++ map_of (rev entries)"
    using d rest by (rule Cons.IH)
  show ?case
    unfolding step by (simp only: ih m eq)
qed

lemma db_wf_preferences:
  "db_wf db \<Longrightarrow> distinct (map pref_key rs) \<Longrightarrow> db_wf (db\<lparr>db_preferences := rs\<rparr>)"
  by (simp add: db_wf_def cong: option.case_cong)

lemma db_wf_savePreferences:
  assumes "db_wf db"
  shows "db_wf (snd (savePreferences fails now entries db))"
proof (cases "\<exists>j < length entries. fails j")
  case True
  then show ?thesis
    using assms by (simp only: savePreferences_eq if_True snd_conv)
next
  case False
  have "distinct (map pref_key (db_preferences db))"
    using assms by (simp add: db_wf_def)
  then have "distinct (map pref_key
      (fold (\<lambda>e. put_preference (entry_put now e)) (enumerate 0 entries) (db_preferences db)))"
    by (rule distinct_fold_put_entries)
  with assms have "db_wf (db\<lparr>db_preferences :=
      fold (\<lambda>e. put_preference (entry_put now e)) (enumerate 0 entries) (db_preferences db)\<rparr>)"
    by (rule db_wf_preferences)
  with False show ?thesis
    by (simp only: savePreferences_eq if_False snd_conv)
qed

lemma index_getAll_preferences:
  "index_getAll k (db\<lparr>db_preferences := rs\<rparr>) = index_getAll k db"
  by (simp add: index_getAll_def)

lemma aggregate_ok_preferences:
  "aggregate_ok (db\<lparr>db_preferences := rs\<rparr>) = aggregate_ok db"
  by (simp add: aggregate_ok_def index_getAll_preferences cong: option.case_cong)

lemma aggregate_ok_savePreferences:
  "aggregate_ok db \<Longrightarrow> aggregate_ok (snd (savePreferences fails now entries db))"
  by (simp add: savePreferences_eq aggregate_ok_preferences)

lemma db_wf_empty: "db_wf empty_database"
  by (simp add: db_wf_def empty_database_def)

lemma aggregate_ok_empty: "aggregate_ok empty_database"
  by (simp add: aggregate_ok_def empty_database_def)

lemma reachable_wf: "reachable db \<Longrightarrow> db_wf db"
proof (induction rule: reachable.induct)
  case reachable_empty
  show ?case by (rule db_wf_empty)
next
  case (reachable_save db fails now name trks)
  then show ?case by (simp add: db_wf_savePlaylist)
next
  case (reachable_delete db fails playlistId)
  then show ?case by (simp add: db_wf_deletePlaylist)
next
  case (reachable_prefs db fails nows entries)
  then show ?case by (simp add: db_wf_savePreferences)
qed

lemma find_append_fresh:
  "\<forall>q \<in> set ps. \<not> P q \<Longrightarrow> P x \<Longrightarrow> find P (ps @ [x]) = Some x"
  by (induction ps) simp_all

lemma playlistStore_get_fresh:
  "db_wf db \<Longrightarrow> playlistStore_get (db_playlistKey db) db = None"
  using db_wf_fresh_playlist [of db] by (auto simp: playlistStore_get_def find_None_iff)

lemma index_getAll_fresh:
  "db_wf db \<Longrightarrow> index_getAll (db_playlistKey db) db = []"
  using db_wf_fresh_track [of db] by (auto simp: index_getAll_def filter_empty_conv)

lemma playlistStore_get_fully_saved:
  assumes "db_wf db"
  shows "playlistStore_get (db_playlistKey db) (fully_saved now name trks db) =
    Some \<lparr>pl_name = name, pl_trackCount = length trks, pl_createdAt = now,
          pl_totalSize = sum_list (map (\<lambda>t. blob_size (track_file t)) trks),
          pl_id = Some (db_playlistKey db)\<rparr>"
proof -
  have "\<forall>q \<in> set (db_playlists db). \<not> pl_id q = Some (db_playlistKey db)"
    using db_wf_fresh_playlist [OF assms] by blast
  then show ?thesis
    unfolding playlistStore_get_def fully_saved_def
    by (simp add: find_append_fresh)
qed

lemma save_requests_fail_iff:
  "(\<exists>j < (n::nat) + 2. fails j) \<longleftrightarrow> fails 0 \<or> (\<exists>j < n + 1. fails (1 + j))"
proof
  assume "\<exists>j < n + 2. fails j"
  then obtain j where j: "j < n + 2" "fails j" by blast
  show "fails 0 \<or> (\<exists>j < n + 1. fails (1 + j))"
  proof (cases j)
    case 0
    with j show ?thesis by simp
  next
    case (Suc m)
    with j have "m < n + 1" "fails (1 + m)" by simp_all
    then show ?thesis by blast
  qed
next
  assume "fails 0 \<or> (\<exists>j < n + 1. fails (1 + j))"
  then show "\<exists>j < n + 2. fails j"
  proof
    assume "fails 0"
    then show ?thesis by (intro exI [of _ 0]) simp
  next
    assume "\<exists>j < n + 1. fails (1 + j)"
    then obtain j where "j < n + 1" "fails (1 + j)" by blast
    then show ?thesis by (intro exI [of _ "1 + j"]) simp
  qed
qed

lemma savePlaylist_database:
  assumes "db_wf db" and "list_all (\<lambda>t. file_isBlob (track_file t)) trks"
  shows "snd (savePlaylist fails now name trks db) =
      (if \<exists>j < length trks + 2. fails j then db else fully_saved now name trks db)"
  unfolding save_requests_fail_iff savePlaylist_eq [OF assms] by auto

subsection \<open>Concrete inputs\<close>

lemma sample_file_simps:
  "blob_size (sample_file i) = 3"
  "file_name (sample_file i) = sample_name i @ ''.mp3''"
  "file_type (sample_file i) = ''audio/mpeg''"
  by (simp_all add: sample_file_def blob_size_def)

lemma three_tracks_blobs: "list_all (\<lambda>t. file_isBlob (track_file t)) three_tracks"
  by (simp add: three_tracks_def sample_track_def sample_file_def)

lemma stored_sample:
  "stored_tracks 1 1 0 three_tracks =
    [\<lparr>rec_playlistId = 1, rec_name = ''Intro'', rec_originalName = ''Intro.mp3'', rec_order = 0,
      rec_audioBlob = sample_file 0, rec_size = 3, rec_type = ''audio/mpeg'', rec_id = Some 1\<rparr>,
     \<lparr>rec_playlistId = 1, rec_name = ''Verse'', rec_originalName = ''Verse.mp3'', rec_order = 1,
      rec_audioBlob = sample_file 1, rec_size = 3, rec_type = ''audio/mpeg'', rec_id = Some 2\<rparr>,
     \<lparr>rec_playlistId = 1, rec_name = ''Outro'', rec_originalName = ''Outro.mp3'', rec_order = 2,
      rec_audioBlob = sample_file 2, rec_size = 3, rec_type = ''audio/mpeg'', rec_id = Some 3\<rparr>]"
  by (simp add: three_tracks_def trackData_def sample_track_def sample_file_simps sample_name_def
      eval_nat_numeral)

lemma road_trip_eq:
  "road_trip =
    \<lparr>db_playlists =
       [\<lparr>pl_name = ''Road Trip'', pl_trackCount = 3, pl_createdAt = sample_time 0,
         pl_totalSize = 9, pl_id = Some 1\<rparr>],
     db_playlistKey = 2,
     db_tracks = stored_tracks 1 1 0 three_tracks,
     db_trackKey = 4,
     db_preferences = []\<rparr>"
proof -
  have "road_trip = fully_saved (sample_time 0) ''Road Trip'' three_tracks empty_database"
    unfolding road_trip_def
    by (simp add: savePlaylist_database [OF db_wf_empty three_tracks_blobs] no_failure_def)
  then show ?thesis
    by (simp add: fully_saved_def empty_database_def three_tracks_def sample_track_def
        sample_file_simps eval_nat_numeral)
qed



subsection \<open>Atomic save\<close>

text \<open>
  When every file is a \<^verbatim>\<open>Blob\<close>, \<^verbatim>\<open>savePlaylist\<close> is atomic: for every name, every such
  list of tracks and every choice of failing requests, the database afterwards is either
  the one before the call (when one of the \<open>n + 2\<close> requests fails; it holds no playlist
  under the new key and no track of it) or the fully saved one, which holds the metadata
  under the new key, with \<^verbatim>\<open>totalSize\<close> equal to the sum of the sizes of the stored track
  records, and all \<open>n\<close> track records of the playlist, with \<^verbatim>\<open>order\<close> fields
  \<open>0, \<dots>, n - 1\<close>.
\<close>

lemma savePlaylist_atomic_blobs:
  assumes "db_wf db" and blobs: "list_all (\<lambda>t. file_isBlob (track_file t)) trks"
  shows "snd (savePlaylist fails now name trks db) =
      (if \<exists>j < length trks + 2. fails j then db else fully_saved now name trks db) \<and>
    playlistStore_get (db_playlistKey db) db = None \<and>
    index_getAll (db_playlistKey db) db = [] \<and>
    playlistStore_get (db_playlistKey db) (fully_saved now name trks db) =
      Some \<lparr>pl_name = name, pl_trackCount = length trks, pl_createdAt = now,
            pl_totalSize =
              sum_list (map rec_size (index_getAll (db_playlistKey db) (fully_saved now name trks db))),
            pl_id = Some (db_playlistKey db)\<rparr> \<and>
    index_getAll (db_playlistKey db) (fully_saved now name trks db) =
      stored_tracks (db_playlistKey db) (db_trackKey db) 0 trks \<and>
    length (index_getAll (db_playlistKey db) (fully_saved now name trks db)) = length trks \<and>
    map rec_order (index_getAll (db_playlistKey db) (fully_saved now name trks db)) =
      [0..<length trks]"
proof -
  have result: "snd (savePlaylist fails now name trks db) =
      (if \<exists>j < length trks + 2. fails j then db else fully_saved now name trks db)"
    using assms by (rule savePlaylist_database)
  have new: "index_getAll (db_playlistKey db) (fully_saved now name trks db) =
      stored_tracks (db_playlistKey db) (db_trackKey db) 0 trks"
    using assms(1) by (rule index_getAll_fully_saved_new)
  show ?thesis
    using result playlistStore_get_fresh [OF assms(1)] index_getAll_fresh [OF assms(1)]
      playlistStore_get_fully_saved [OF assms(1), of now name trks]
    by (simp add: new stored_tracks_size length_stored_tracks stored_tracks_order)
qed


lemma processed_name:
  "map track_name (map (processedTrack urls) (enumerate i rs)) = map rec_name rs"
  by (induction rs arbitrary: i) (simp_all add: processedTrack_def)

lemma processed_bytes:
  "map (\<lambda>t. file_bytes (track_file t)) (map (processedTrack urls) (enumerate i rs))
     = map (\<lambda>r. file_bytes (rec_audioBlob r)) rs"
  by (induction rs arbitrary: i) (simp_all add: processedTrack_def)

lemma processed_file_name:
  "map (\<lambda>t. file_name (track_file t)) (map (processedTrack urls) (enumerate i rs))
     = map rec_originalName rs"
  by (induction rs arbitrary: i) (simp_all add: processedTrack_def)

lemma processed_index:
  "map track_index (map (processedTrack urls) (enumerate i rs)) = [i..<i + length rs]"
  by (induction rs arbitrary: i) (simp_all add: processedTrack_def upt_rec)

lemma stored_tracks_bytes:
  "map (\<lambda>r. file_bytes (rec_audioBlob r)) (stored_tracks pid key i ts)
     = map (\<lambda>t. file_bytes (track_file t)) ts"
  by (induction ts arbitrary: key i) (simp_all add: trackData_def)

lemma stored_tracks_originalName:
  "map rec_originalName (stored_tracks pid key i ts) = map (\<lambda>t. file_name (track_file t)) ts"
  by (induction ts arbitrary: key i) (simp_all add: trackData_def)

lemma processed_size:
  "map (\<lambda>t. blob_size (track_file t)) (map (processedTrack urls) (enumerate i rs))
     = map (\<lambda>r. blob_size (rec_audioBlob r)) rs"
  by (induction rs arbitrary: i) (simp_all add: processedTrack_def blob_size_def)

lemma stored_tracks_blob_size:
  "map (\<lambda>r. blob_size (rec_audioBlob r)) (stored_tracks pid key i ts)
     = map (\<lambda>t. blob_size (track_file t)) ts"
  by (induction ts arbitrary: key i) (simp_all add: trackData_def)

lemma sort_stored_tracks:
  assumes "mset rs = mset (stored_tracks pid key i ts)"
  shows "sort_key rec_order rs = stored_tracks pid key i ts"
proof (rule sort_key_inj_key_eq [OF assms])
  have "distinct (map rec_order (stored_tracks pid key i ts))"
    by (simp add: stored_tracks_order)
  then have "inj_on rec_order (set (stored_tracks pid key i ts))"
    by (simp add: distinct_map)
  moreover have "set rs = set (stored_tracks pid key i ts)"
    using assms by (rule mset_eq_setD)
  ultimately show "inj_on rec_order (set rs)" by simp
  show "sorted (map rec_order (stored_tracks pid key i ts))"
    by (simp add: stored_tracks_order)
qed

lemma processedTracks_stored:
  assumes "mset rs = mset (stored_tracks pid key i ts)"
  shows "processedTracks urls rs =
    map (processedTrack urls) (enumerate 0 (stored_tracks pid key i ts))"
  by (simp add: processedTracks_def sort_stored_tracks [OF assms])

subsection \<open>Round trip\<close>

text \<open>
  On a well-formed database, when every file is a \<^verbatim>\<open>Blob\<close> and the requests of a
  \<^verbatim>\<open>savePlaylist(name, tracks)\<close> and of the following
  \<^verbatim>\<open>loadPlaylist(id)\<close> succeed, the save returns the new id and the load returns the
  metadata and tracks with the same names, the same sizes, the same bytes, the same file
  names and the same order as supplied, the \<open>i\<close>-th track at index \<open>i\<close>; the sort by
  \<^verbatim>\<open>order\<close> yields that list from every order in which the store may return the records.
\<close>

lemma save_load_committed:
  assumes "db_wf db"
    and "\<forall>j < length trks + 2. \<not> fails j"
    and "\<not> failsL 0" and "\<not> failsL 1"
    and blobs: "list_all (\<lambda>t. file_isBlob (track_file t)) trks"
  shows "fst (savePlaylist fails now name trks db) = Resolved (db_playlistKey db) \<and>
    (\<exists>p loaded.
       loadPlaylist failsL urls (db_playlistKey db) (snd (savePlaylist fails now name trks db))
         = Resolved (p, loaded) \<and>
       pl_name p = name \<and> pl_trackCount p = length trks \<and>
       length loaded = length trks \<and>
       map track_name loaded = map track_name trks \<and>
       map (\<lambda>t. blob_size (track_file t)) loaded = map (\<lambda>t. blob_size (track_file t)) trks \<and>
       map (\<lambda>t. file_bytes (track_file t)) loaded = map (\<lambda>t. file_bytes (track_file t)) trks \<and>
       map (\<lambda>t. file_name (track_file t)) loaded = map (\<lambda>t. file_name (track_file t)) trks \<and>
       map track_index loaded = [0..<length trks] \<and>
       (\<forall>rs. mset rs =
               mset (index_getAll (db_playlistKey db) (snd (savePlaylist fails now name trks db)))
             \<longrightarrow> processedTracks urls rs = loaded))"
proof -
  let ?pid = "db_playlistKey db"
  let ?db' = "fully_saved now name trks db"
  let ?stored = "stored_tracks ?pid (db_trackKey db) 0 trks"
  let ?loaded = "map (processedTrack urls) (enumerate 0 ?stored)"
  let ?p = "\<lparr>pl_name = name, pl_trackCount = length trks, pl_createdAt = now,
            pl_totalSize = sum_list (map (\<lambda>t. blob_size (track_file t)) trks),
            pl_id = Some ?pid\<rparr>"
  have f0: "\<not> fails 0" using assms(2) by simp
  have "\<not> (\<exists>j < length trks + 1. fails (1 + j))" using assms(2) by simp
  with f0 have save: "savePlaylist fails now name trks db = (Resolved ?pid, ?db')"
    by (simp only: savePlaylist_eq [OF assms(1) blobs] if_False)
  have getAll: "index_getAll ?pid ?db' = ?stored"
    using assms(1) by (rule index_getAll_fully_saved_new)
  have get: "playlistStore_get ?pid ?db' = Some ?p"
    using assms(1) by (rule playlistStore_get_fully_saved)
  have sorted: "processedTracks urls rs = ?loaded" if "mset rs = mset ?stored" for rs
    using that by (rule processedTracks_stored)
  have load: "loadPlaylist failsL urls ?pid ?db' = Resolved (?p, ?loaded)"
    using assms(3,4) get getAll sorted [of ?stored] by (simp add: loadPlaylist_def)
  have size: "map (\<lambda>t. blob_size (track_file t)) ?loaded = map (\<lambda>t. blob_size (track_file t)) trks"
    by (simp only: processed_size stored_tracks_blob_size)
  have fields: "length ?loaded = length trks"
    "map track_name ?loaded = map track_name trks"
    "map (\<lambda>t. file_bytes (track_file t)) ?loaded = map (\<lambda>t. file_bytes (track_file t)) trks"
    "map (\<lambda>t. file_name (track_file t)) ?loaded = map (\<lambda>t. file_name (track_file t)) trks"
    "map track_index ?loaded = [0..<length trks]"
    by (simp_all only: processed_name processed_bytes processed_file_name processed_index
        stored_tracks_name stored_tracks_bytes stored_tracks_originalName length_stored_tracks
        length_map length_enumerate add_0)
  have "loadPlaylist failsL urls ?pid (snd (savePlaylist fails now name trks db))
         = Resolved (?p, ?loaded) \<and>
       pl_name ?p = name \<and> pl_trackCount ?p = length trks \<and>
       length ?loaded = length trks \<and>
       map track_name ?loaded = map track_name trks \<and>
       map (\<lambda>t. blob_size (track_file t)) ?loaded = map (\<lambda>t. blob_size (track_file t)) trks \<and>
       map (\<lambda>t. file_bytes (track_file t)) ?loaded = map (\<lambda>t. file_bytes (track_file t)) trks \<and>
       map (\<lambda>t. file_name (track_file t)) ?loaded = map (\<lambda>t. file_name (track_file t)) trks \<and>
       map track_index ?loaded = [0..<length trks] \<and>
       (\<forall>rs. mset rs =
               mset (index_getAll ?pid (snd (savePlaylist fails now name trks db)))
             \<longrightarrow> processedTracks urls rs = ?loaded)"
    unfolding save snd_conv getAll
    using load size fields sorted by (simp only: simp_thms playlist.simps) blast
  then have "\<exists>p loaded.
       loadPlaylist failsL urls ?pid (snd (savePlaylist fails now name trks db))
         = Resolved (p, loaded) \<and>
       pl_name p = name \<and> pl_trackCount p = length trks \<and>
       length loaded = length trks \<and>
       map track_name loaded = map track_name trks \<and>
       map (\<lambda>t. blob_size (track_file t)) loaded = map (\<lambda>t. blob_size (track_file t)) trks \<and>
       map (\<lambda>t. file_bytes (track_file t)) loaded = map (\<lambda>t. file_bytes (track_file t)) trks \<and>
       map (\<lambda>t. file_name (track_file t)) loaded = map (\<lambda>t. file_name (track_file t)) trks \<and>
       map track_index loaded = [0..<length trks] \<and>
       (\<forall>rs. mset rs =
               mset (index_getAll ?pid (snd (savePlaylist fails now name trks db)))
             \<longrightarrow> processedTracks urls rs = loaded)"
    by (intro exI [of _ ?p] exI [of _ ?loaded])
  moreover have "fst (savePlaylist fails now name trks db) = Resolved ?pid"
    by (simp only: save fst_conv)
  ultimately show ?thesis
    by (rule conjI [rotated])
qed

text \<open>
  The promise of \<^verbatim>\<open>savePlaylist\<close> is resolved by the success handler of the first request:
  when a later request fails, the caller has the new id although nothing was stored.
\<close>

lemma savePlaylist_resolved_before_commit:
  assumes "db_wf db" and "list_all (\<lambda>t. file_isBlob (track_file t)) trks"
    and "\<not> fails 0" and "j < length trks + 1" and "fails (1 + j)"
  shows "savePlaylist fails now name trks db = (Resolved (db_playlistKey db), db)"
proof -
  from assms(4,5) have "\<exists>j < length trks + 1. fails (1 + j)" by blast
  with assms(3) show ?thesis
    by (simp only: savePlaylist_eq [OF assms(1,2)] if_False if_True)
qed

text \<open>
  Claim C4. The round trip fails on an id that \<^verbatim>\<open>savePlaylist\<close> returned: when the
  request that adds the first of three tracks fails, the promise has already been
  resolved with the id \<open>1\<close>, the transaction is aborted and the database is the empty
  one it was, and \<^verbatim>\<open>loadPlaylist(1)\<close> is rejected with \<open>RecordNotFound\<close>.
\<close>

theorem returned_id_not_loadable:
  "savePlaylist (fails_at 1) (sample_time 0) ''Road Trip'' three_tracks
     (empty_database :: js_value database) = (Resolved 1, empty_database) \<and>
   loadPlaylist no_failure sample_url 1 (empty_database :: js_value database) =
     Rejected RecordNotFound"
proof -
  have "\<exists>j < length three_tracks + 1. fails_at 1 (1 + j)"
    by (intro exI [of _ 0]) (simp add: fails_at_def)
  moreover have "\<not> fails_at 1 0"
    by (simp add: fails_at_def)
  ultimately have "savePlaylist (fails_at 1) (sample_time 0) ''Road Trip'' three_tracks
     (empty_database :: js_value database) =
     (Resolved (db_playlistKey (empty_database :: js_value database)), empty_database)"
    by (simp only: savePlaylist_eq [OF db_wf_empty three_tracks_blobs] if_False if_True)
  moreover have "loadPlaylist no_failure sample_url 1 (empty_database :: js_value database) =
     Rejected RecordNotFound"
    by (simp add: loadPlaylist_def no_failure_def playlistStore_get_def empty_database_def)
  ultimately show ?thesis
    by (simp add: empty_database_def)
qed

subsection \<open>Aggregate invariant\<close>


subsection \<open>Cascade delete\<close>

text \<open>
  Claim C5. After \<^verbatim>\<open>deletePlaylist(playlistId)\<close> has completed, no track record with that
  \<^verbatim>\<open>playlistId\<close> remains, the playlist is gone, and \<^verbatim>\<open>loadPlaylist(playlistId)\<close> is rejected:
  with \<open>RecordNotFound\<close>, unless its first read request itself fails.
\<close>

theorem cascade_delete:
  assumes "deletePlaylist fails playlistId db = (Resolved (), db')"
  shows "index_getAll playlistId db' = [] \<and>
    list_all (\<lambda>r. rec_playlistId r \<noteq> playlistId) (db_tracks db') \<and>
    playlistStore_get playlistId db' = None \<and>
    loadPlaylist failsL urls playlistId db' =
      Rejected (if failsL 0 then RequestError else RecordNotFound)"
proof -
  have db': "db' = fully_deleted playlistId db"
    using assms by (simp add: deletePlaylist_eq split: if_splits)
  have none: "index_getAll playlistId db' = []"
    unfolding db' by (rule index_getAll_fully_deleted)
  then have "list_all (\<lambda>r. rec_playlistId r \<noteq> playlistId) (db_tracks db')"
    by (simp add: index_getAll_def filter_empty_conv list_all_iff)
  moreover have get: "playlistStore_get playlistId db' = None"
    unfolding db' by (rule playlistStore_get_fully_deleted)
  moreover have "loadPlaylist failsL urls playlistId db' =
      Rejected (if failsL 0 then RequestError else RecordNotFound)"
    by (simp add: loadPlaylist_def get)
  ultimately show ?thesis
    using none by simp
qed

lemma fully_deleted_road_trip:
  "fully_deleted 1 road_trip =
     \<lparr>db_playlists = [], db_playlistKey = 2, db_tracks = [], db_trackKey = 4,
      db_preferences = []\<rparr>"
  unfolding road_trip_eq fully_deleted_def index_getAll_def stored_sample by simp

text \<open>Deleting playlist \<open>1\<close> of the sample database.\<close>

theorem cascade_delete_witness:
  "deletePlaylist no_failure 1 road_trip = (Resolved (), fully_deleted 1 road_trip) \<and>
   db_tracks (fully_deleted 1 road_trip) = [] \<and>
   index_getAll 1 (fully_deleted 1 road_trip) = [] \<and>
   playlistStore_get 1 (fully_deleted 1 road_trip) = None \<and>
   loadPlaylist no_failure sample_url 1 (fully_deleted 1 road_trip) = Rejected RecordNotFound"
proof -
  have d: "deletePlaylist no_failure 1 road_trip = (Resolved (), fully_deleted 1 road_trip)"
    by (simp add: deletePlaylist_eq no_failure_def)
  have e: "db_tracks (fully_deleted 1 road_trip) = []"
    unfolding fully_deleted_road_trip by simp
  from cascade_delete [OF d, where failsL = no_failure and urls = sample_url] d e
  show ?thesis
    by (simp add: no_failure_def)
qed

lemma put_preference_other:
  "r \<in> set rs \<Longrightarrow> pref_key r \<noteq> pref_key p \<Longrightarrow> r \<in> set (put_preference p rs)"
  by (induction rs) auto

lemma fold_put_entries_other:
  "r \<in> set rs \<Longrightarrow> pref_key r \<notin> fst ` set entries \<Longrightarrow>
   r \<in> set (fold (\<lambda>e. put_preference (entry_put now e)) (enumerate i entries) rs)"
proof (induction entries arbitrary: i rs)
  case Nil
  then show ?case by simp
next
  case (Cons e entries)
  obtain key "value" where e: "e = (key, value)" by (cases e)
  let ?p = "\<lparr>pref_key = key, pref_value = value, pref_updatedAt = now i\<rparr>"
  from Cons.prems e have "pref_key r \<noteq> pref_key ?p" by auto
  with Cons.prems(1) have "r \<in> set (put_preference ?p rs)"
    by (rule put_preference_other)
  moreover from Cons.prems(2) have "pref_key r \<notin> fst ` set entries" by auto
  ultimately have "r \<in> set (fold (\<lambda>e. put_preference (entry_put now e))
      (enumerate (Suc i) entries) (put_preference ?p rs))"
    by (rule Cons.IH)
  then show ?case by (simp add: e)
qed

subsection \<open>Partial update of preferences\<close>

text \<open>
  After a \<^verbatim>\<open>savePreferences(m)\<close> that completes, where \<^verbatim>\<open>__proto__\<close> is no key of \<open>m\<close>,
  every key of \<open>m\<close> maps to its new value, every other key maps to what it mapped to
  before (its record is untouched), and \<^verbatim>\<open>loadPreferences\<close> returns the old map overridden
  by \<open>m\<close>, which holds the stored key/value pairs but one under \<^verbatim>\<open>__proto__\<close>: a key
  without a record is missing. Playlists and tracks are not touched.
\<close>

lemma savePreferences_partial_update:
  assumes "db_wf db" and "distinct (map fst entries)"
    and "savePreferences fails now entries db = (Resolved (), db')"
    and own: "''__proto__'' \<notin> fst ` set entries"
  shows "(\<forall>key value. (key, value) \<in> set entries \<longrightarrow>
        merge_preferences (db_preferences db') key = Some value) \<and>
    (\<forall>key. key \<notin> fst ` set entries \<longrightarrow>
        merge_preferences (db_preferences db') key = merge_preferences (db_preferences db) key) \<and>
    (\<forall>r \<in> set (db_preferences db). pref_key r \<notin> fst ` set entries \<longrightarrow>
        r \<in> set (db_preferences db')) \<and>
    loadPreferences failsL db' =
      (if failsL 0 then Rejected RequestError
       else Resolved (merge_preferences (db_preferences db) ++ map_of entries)) \<and>
    (\<forall>key value. merge_preferences (db_preferences db') key = Some value \<longleftrightarrow>
        key \<noteq> ''__proto__'' \<and>
        (\<exists>r \<in> set (db_preferences db'). pref_key r = key \<and> pref_value r = value)) \<and>
    db_playlists db' = db_playlists db \<and> db_tracks db' = db_tracks db"
proof -
  let ?rs' = "fold (\<lambda>e. put_preference (entry_put now e)) (enumerate 0 entries) (db_preferences db)"
  have db': "db' = db\<lparr>db_preferences := ?rs'\<rparr>"
    using assms(3) by (simp add: savePreferences_eq split: if_splits)
  have prefs: "db_preferences db' = ?rs'" by (simp add: db')
  have d: "distinct (map pref_key (db_preferences db))"
    using assms(1) by (simp add: db_wf_def)
  have d': "distinct (map pref_key ?rs')"
    using d by (rule distinct_fold_put_entries)
  have m: "merge_preferences ?rs' = merge_preferences (db_preferences db) ++ map_of (rev entries)"
    using d own by (rule fold_put_entries)
  have merged: "merge_preferences (db_preferences db') =
      merge_preferences (db_preferences db) ++ map_of entries"
    using m map_of_rev_distinct [OF assms(2)] by (simp add: prefs)
  have new: "merge_preferences (db_preferences db') key = Some value"
    if "(key, value) \<in> set entries" for key "value"
  proof -
    from that assms(2) have "map_of entries key = Some value" by simp
    then show ?thesis by (simp add: merged)
  qed
  have old: "merge_preferences (db_preferences db') key = merge_preferences (db_preferences db) key"
    if "key \<notin> fst ` set entries" for key
  proof -
    from that have "map_of entries key = None" by (simp add: map_of_eq_None_iff)
    then show ?thesis by (simp add: merged map_add_def)
  qed
  have kept: "r \<in> set (db_preferences db')"
    if "r \<in> set (db_preferences db)" "pref_key r \<notin> fst ` set entries" for r
    unfolding prefs using that by (rule fold_put_entries_other)
  have stored: "merge_preferences (db_preferences db') key = Some value \<longleftrightarrow>
      key \<noteq> ''__proto__'' \<and>
      (\<exists>r \<in> set (db_preferences db'). pref_key r = key \<and> pref_value r = value)" for key "value"
  proof -
    let ?own = "filter (\<lambda>r. pref_key r \<noteq> ''__proto__'') (db_preferences db')"
    have "distinct (map pref_key ?own)"
      using d' unfolding prefs by (rule distinct_map_filter)
    then have "distinct (map fst (map key_value ?own))"
      by (simp add: comp_def)
    then have "map_of (map key_value ?own) key = Some value \<longleftrightarrow>
        (key, value) \<in> set (map key_value ?own)"
      by (rule map_of_eq_Some_iff)
    moreover have "merge_preferences (db_preferences db') = map_of (map key_value ?own)"
      using d' unfolding prefs by (rule merge_preferences_map_of)
    ultimately show ?thesis by auto
  qed
  have load: "loadPreferences failsL db' =
      (if failsL 0 then Rejected RequestError
       else Resolved (merge_preferences (db_preferences db) ++ map_of entries))"
    by (simp add: loadPreferences_def merged)
  have frame: "db_playlists db' = db_playlists db" "db_tracks db' = db_tracks db"
    by (simp_all add: db')
  from new old kept stored load frame show ?thesis by blast
qed


end
